theory Spec2Isabelle
  imports Complex_Main "HOL-Library.Multiset"
begin

section \<open>JavaScript values and thrown errors\<close>

text \<open>
  Values that travel through the client: what \<^verbatim>\<open>response.json()\<close> parses, what
  a producer returns and what is stored under a key. A \<open>JObj\<close> lists the properties of
  an object; a lookup takes the first binding of a name.
\<close>

datatype jsval =
    Undefined
  | Null
  | JBool bool
  | JNum int
  | JStr string
  | JArr "jsval list"
  | JObj "(string \<times> jsval) list"

text \<open>
  A thrown value as \<^verbatim>\<open>HttpClient.request\<close> inspects it: whether it is an
  \<^verbatim>\<open>Error\<close>, whether it is a \<^verbatim>\<open>TypeError\<close>, its \<^verbatim>\<open>name\<close> and its
  \<^verbatim>\<open>message\<close>.
\<close>

datatype err_class = NonError | ErrorClass | TypeErrorClass

datatype thrown = Thrown (cls: err_class) (errName: string) (errMessage: string)

text \<open>
  A JavaScript number, as the configuration holds it. Numbers are taken as reals: the
  rounding and the overflow of doubles are left out.
\<close>

datatype number = Num real | Infinity | MinusInfinity | NaN

datatype js_error =
    Foreign thrown
  | LixTimeoutError number
  | LixConnectionError string thrown

definition typeError :: "string \<Rightarrow> js_error" where
  "typeError msg = Foreign (Thrown TypeErrorClass ''TypeError'' msg)"

text \<open>
  Property access \<^verbatim>\<open>v.name\<close>, for the property names the client reads
  (\<^verbatim>\<open>op\<close>, \<^verbatim>\<open>value\<close>, \<^verbatim>\<open>results\<close>, \<^verbatim>\<open>items\<close>): it throws a
  \<^verbatim>\<open>TypeError\<close> on \<^verbatim>\<open>undefined\<close> and \<^verbatim>\<open>null\<close>, and yields
  \<^verbatim>\<open>undefined\<close> where the property is missing.
\<close>

fun getProp :: "jsval \<Rightarrow> string \<Rightarrow> js_error + jsval" where
  "getProp Undefined n = Inl (typeError ''Cannot read properties of undefined'')"
| "getProp Null n = Inl (typeError ''Cannot read properties of null'')"
| "getProp (JObj kvs) n = Inr (case map_of kvs n of Some v \<Rightarrow> v | None \<Rightarrow> Undefined)"
| "getProp v n = Inr Undefined"


section \<open>HttpClient.request\<close>

record http_config =
  baseUrl :: string
  timeout :: number
  maxRetries :: number
  retryDelay :: number


datatype http_step = Fetch | Sleep number



text \<open>\<^verbatim>\<open>this.config.retryDelay * Math.pow(2, retryCount)\<close>.\<close>

fun backoff :: "number \<Rightarrow> nat \<Rightarrow> number" where
  "backoff (Num r) k = Num (r * 2 ^ k)"
| "backoff Infinity k = Infinity"
| "backoff MinusInfinity k = MinusInfinity"
| "backoff NaN k = NaN"


definition fetches :: "http_step list \<Rightarrow> nat" where
  "fetches steps = length (filter (\<lambda>st. st = Fetch) steps)"




text \<open>The fetches and sleeps of \<open>n\<close> retries, from retry count \<open>k\<close> on.\<close>

fun retry_steps :: "http_config \<Rightarrow> nat \<Rightarrow> nat \<Rightarrow> http_step list" where
  "retry_steps cfg k 0 = []"
| "retry_steps cfg k (Suc n) =
     Fetch # Sleep (backoff (retryDelay cfg) k) # retry_steps cfg (Suc k) n"

section \<open>The promise heap\<close>

text \<open>
  A promise is an address. A settled promise stays as it is: resolving or rejecting it
  again does nothing. An \<^verbatim>\<open>async\<close> method that returns a promise is given the
  address of that promise (the outer promise follows it).
\<close>

type_synonym pid = nat

text \<open>The identity of a caller-supplied producer function (\<^verbatim>\<open>fallback\<close>).\<close>

type_synonym fid = nat

datatype payload =
    PVal jsval
  | PAll "jsval list" "(jsval \<times> jsval) list"

datatype settlement = Pending | Fulfilled payload | Rejected js_error

section \<open>The batch queue\<close>

datatype batch_operation =
    OpGet string
  | OpSet string jsval "nat option"
  | OpDelete string

fun op_name :: "batch_operation \<Rightarrow> string" where
  "op_name (OpGet k) = ''get''"
| "op_name (OpSet k v t) = ''set''"
| "op_name (OpDelete k) = ''delete''"

fun op_key :: "batch_operation \<Rightarrow> string" where
  "op_key (OpGet k) = k"
| "op_key (OpSet k v t) = k"
| "op_key (OpDelete k) = k"

text \<open>
  The \<^verbatim>\<open>resolve\<close> and \<^verbatim>\<open>reject\<close> closures of a queued item, first order:
  the executor's own function, the wrapper of a first \<^verbatim>\<open>get\<close> that turns
  \<^verbatim>\<open>undefined\<close> into \<^verbatim>\<open>null\<close>, and the wrapper a collapsed \<^verbatim>\<open>get\<close> installs, which
  calls the function it replaces and then its own promise's.
\<close>

datatype resolver =
    Resolve pid
  | ResolveNullConv pid
  | ResolveBoth resolver pid

datatype rejecter =
    Reject pid
  | RejectBoth rejecter pid

record queued =
  operation :: batch_operation
  resolve :: resolver
  reject :: rejecter

text \<open>The continuation of an \<^verbatim>\<open>async\<close> body suspended at an \<^verbatim>\<open>await\<close> of a promise.\<close>

datatype frame =
    RememberGet string fid "nat option" pid
  | RememberSet string jsval pid
  | ExistsGet pid
  | RememberAllExists string fid "jsval \<Rightarrow> js_error + jsval" "nat option" nat pid
  | RememberAllSetMarker string "jsval list" "jsval \<Rightarrow> js_error + jsval" pid

text \<open>
  The continuation suspended at an \<^verbatim>\<open>await\<close> of something outside the client: an
  HTTP exchange or a producer.
\<close>

datatype xframe =
    FlushPost "queued list"
  | RememberFallback string "nat option" pid
  | RememberAllScan string "jsval \<Rightarrow> js_error + jsval" pid
  | RememberAllFallback string "jsval \<Rightarrow> js_error + jsval" "nat option" "nat option" pid
  | RememberAllBatch string "jsval list" "jsval \<Rightarrow> js_error + jsval" "nat option" pid

text \<open>What the client asks of the outside, in the order asked.\<close>

datatype ext_call =
    HttpPostBatch "batch_operation list"
  | HttpGetScan string
  | Producer fid pid
  | ListProducer fid pid

record engine =
  batchQueue :: "queued list"
  batchScheduled :: bool
  rememberPromises :: "string \<rightharpoonup> pid"
  rememberAllPromises :: "string \<rightharpoonup> pid"
  promises :: "pid \<Rightarrow> settlement"
  nextPid :: pid
  waiters :: "(pid \<times> frame) list"
  inflight :: "(nat \<times> xframe) list"
  sent :: "ext_call list"

definition init :: engine where
  "init = \<lparr> batchQueue = [], batchScheduled = False,
            rememberPromises = Map.empty, rememberAllPromises = Map.empty,
            promises = (\<lambda>p. Pending), nextPid = 0,
            waiters = [], inflight = [], sent = [] \<rparr>"

definition new_promise :: "engine \<Rightarrow> pid \<times> engine" where
  "new_promise s = (nextPid s, s\<lparr>nextPid := Suc (nextPid s)\<rparr>)"

definition settle :: "pid \<Rightarrow> settlement \<Rightarrow> engine \<Rightarrow> engine" where
  "settle p r s =
     (if promises s p = Pending then s\<lparr>promises := (promises s)(p := r)\<rparr> else s)"

fun call_resolve :: "resolver \<Rightarrow> jsval \<Rightarrow> engine \<Rightarrow> engine" where
  "call_resolve (Resolve p) v s = settle p (Fulfilled (PVal v)) s"
| "call_resolve (ResolveNullConv p) v s =
     settle p (Fulfilled (PVal (if v = Undefined then Null else v))) s"
| "call_resolve (ResolveBoth originalResolve p) v s =
     settle p (Fulfilled (PVal v)) (call_resolve originalResolve v s)"

fun call_reject :: "rejecter \<Rightarrow> js_error \<Rightarrow> engine \<Rightarrow> engine" where
  "call_reject (Reject p) e s = settle p (Rejected e) s"
| "call_reject (RejectBoth originalReject p) e s =
     settle p (Rejected e) (call_reject originalReject e s)"

text \<open>
  An awaited external call: it is logged, and the continuation waits under the call's
  index in the log.
\<close>

definition await_ext :: "ext_call \<Rightarrow> xframe \<Rightarrow> engine \<Rightarrow> engine" where
  "await_ext c k s =
     s\<lparr>inflight := inflight s @ [(length (sent s), k)], sent := sent s @ [c]\<rparr>"

definition await_promise :: "pid \<Rightarrow> frame \<Rightarrow> engine \<Rightarrow> engine" where
  "await_promise p k s = s\<lparr>waiters := waiters s @ [(p, k)]\<rparr>"

subsection \<open>scheduleBatch and flushBatch\<close>

text \<open>
  The microtask queued by \<^verbatim>\<open>scheduleBatch\<close> is pending exactly while
  \<^verbatim>\<open>batchScheduled\<close> is set: \<^verbatim>\<open>flushBatch\<close> clears the flag first.
\<close>

definition scheduleBatch :: "engine \<Rightarrow> engine" where
  "scheduleBatch s = (if batchScheduled s then s else s\<lparr>batchScheduled := True\<rparr>)"

text \<open>\<^verbatim>\<open>flushBatch\<close> up to its \<^verbatim>\<open>await this.http.post\<close>.\<close>

definition flushBatch :: "engine \<Rightarrow> engine" where
  "flushBatch s =
     (let s1 = s\<lparr>batchScheduled := False\<rparr> in
      if length (batchQueue s1) = 0 then s1
      else
        let queue = batchQueue s1;
            s2 = s1\<lparr>batchQueue := []\<rparr>;
            operations = map operation queue
        in await_ext (HttpPostBatch operations) (FlushPost queue) s2)"

text \<open>
  The body of the \<^verbatim>\<open>forEach\<close> callback. A thrown \<^verbatim>\<open>TypeError\<close> keeps what was
  settled before it.
\<close>

definition deliver_result :: "queued list \<Rightarrow> jsval \<Rightarrow> nat \<Rightarrow> engine \<Rightarrow> engine \<times> js_error option" where
  "deliver_result queue result index s =
     (case getProp result ''op'' of
        Inl e \<Rightarrow> (s, Some e)
      | Inr opv \<Rightarrow>
          if opv = JStr ''get'' then
            (if index < length queue
             then (case getProp result ''value'' of
                     Inl e \<Rightarrow> (s, Some e)
                   | Inr v \<Rightarrow> (call_resolve (resolve (queue ! index)) v s, None))
             else (s, Some (typeError ''Cannot read properties of undefined'')))
          else if opv = JStr ''set'' then
            (if index < length queue
             then (call_resolve (resolve (queue ! index)) Undefined s, None)
             else (s, Some (typeError ''Cannot read properties of undefined'')))
          else if opv = JStr ''delete'' then
            (if index < length queue
             then (call_resolve (resolve (queue ! index)) Undefined s, None)
             else (s, Some (typeError ''Cannot read properties of undefined'')))
          else (s, None))"

fun forEach_results :: "queued list \<Rightarrow> jsval list \<Rightarrow> nat \<Rightarrow> engine \<Rightarrow> engine \<times> js_error option" where
  "forEach_results queue [] index s = (s, None)"
| "forEach_results queue (result # rest) index s =
     (case deliver_result queue result index s of
        (s', Some e) \<Rightarrow> (s', Some e)
      | (s', None) \<Rightarrow> forEach_results queue rest (Suc index) s')"

fun reject_all :: "queued list \<Rightarrow> js_error \<Rightarrow> engine \<Rightarrow> engine" where
  "reject_all [] e s = s"
| "reject_all (item # rest) e s = reject_all rest e (call_reject (reject item) e s)"

text \<open>
  \<^verbatim>\<open>flushBatch\<close> after the \<^verbatim>\<open>await\<close>: the \<^verbatim>\<open>try\<close> block's fan-out and the
  \<^verbatim>\<open>catch\<close>. \<^verbatim>\<open>results.results.forEach\<close> throws when the body has no array
  \<^verbatim>\<open>results\<close>.
\<close>

definition flushBatch_resume :: "queued list \<Rightarrow> js_error + jsval \<Rightarrow> engine \<Rightarrow> engine" where
  "flushBatch_resume queue outcome s =
     (case outcome of
        Inl error \<Rightarrow> reject_all queue error s
      | Inr results \<Rightarrow>
          (case getProp results ''results'' of
             Inl error \<Rightarrow> reject_all queue error s
           | Inr (JArr rs) \<Rightarrow>
               (case forEach_results queue rs 0 s of
                  (s', None) \<Rightarrow> s'
                | (s', Some error) \<Rightarrow> reject_all queue error s')
           | Inr other \<Rightarrow>
               reject_all queue (typeError ''results.results.forEach is not a function'') s))"

subsection \<open>set, get, delete\<close>

definition enqueue :: "queued \<Rightarrow> engine \<Rightarrow> engine" where
  "enqueue item s = s\<lparr>batchQueue := batchQueue s @ [item]\<rparr>"

definition set_op :: "string \<Rightarrow> jsval \<Rightarrow> nat option \<Rightarrow> engine \<Rightarrow> pid \<times> engine" where
  "set_op key v ttl s =
     (let (p, s1) = new_promise s;
          s2 = enqueue \<lparr>operation = OpSet key v ttl, resolve = Resolve p, reject = Reject p\<rparr> s1
      in (p, scheduleBatch s2))"

text \<open>\<^verbatim>\<open>Array.prototype.find\<close>, as the index of the item found.\<close>

fun find_index :: "('a \<Rightarrow> bool) \<Rightarrow> 'a list \<Rightarrow> nat option" where
  "find_index P [] = None"
| "find_index P (x # xs) =
     (if P x then Some 0 else map_option Suc (find_index P xs))"

definition is_get_for :: "string \<Rightarrow> queued \<Rightarrow> bool" where
  "is_get_for key item =
     (op_name (operation item) = ''get'' \<and> op_key (operation item) = key)"

definition get_op :: "string \<Rightarrow> engine \<Rightarrow> pid \<times> engine" where
  "get_op key s =
     (case find_index (is_get_for key) (batchQueue s) of
        Some i \<Rightarrow>
          (let existing = batchQueue s ! i;
               (p, s1) = new_promise s;
               existing' = existing\<lparr>resolve := ResolveBoth (resolve existing) p,
                                    reject := RejectBoth (reject existing) p\<rparr>
           in (p, s1\<lparr>batchQueue := (batchQueue s1)[i := existing']\<rparr>))
      | None \<Rightarrow>
          (let (p, s1) = new_promise s;
               s2 = enqueue \<lparr>operation = OpGet key, resolve = ResolveNullConv p,
                             reject = Reject p\<rparr> s1
           in (p, scheduleBatch s2)))"

definition delete_op :: "string \<Rightarrow> engine \<Rightarrow> pid \<times> engine" where
  "delete_op key s =
     (let (p, s1) = new_promise s;
          s2 = enqueue \<lparr>operation = OpDelete key, resolve = Resolve p, reject = Reject p\<rparr> s1
      in (p, scheduleBatch s2))"

subsection \<open>remember\<close>

text \<open>
  \<^verbatim>\<open>remember\<close> up to the first \<^verbatim>\<open>await\<close> of its inner \<^verbatim>\<open>async\<close> function and
  the registration that follows it. A caller that finds an entry is given the promise of
  the entry.
\<close>

definition remember :: "string \<Rightarrow> fid \<Rightarrow> nat option \<Rightarrow> engine \<Rightarrow> pid \<times> engine" where
  "remember key fallback ttl s =
     (case rememberPromises s key of
        Some found \<Rightarrow> (found, s)
      | None \<Rightarrow>
          (let (promise, s1) = new_promise s;
               (g, s2) = get_op key s1;
               s3 = await_promise g (RememberGet key fallback ttl promise) s2
           in (promise, s3\<lparr>rememberPromises := (rememberPromises s3)(key \<mapsto> promise)\<rparr>)))"

text \<open>The \<^verbatim>\<open>finally\<close> block, then the settlement of the inner function's promise.\<close>

definition remember_finish :: "string \<Rightarrow> pid \<Rightarrow> settlement \<Rightarrow> engine \<Rightarrow> engine" where
  "remember_finish key promise outcome s =
     settle promise outcome (s\<lparr>rememberPromises := (rememberPromises s)(key := None)\<rparr>)"

subsection \<open>exists, rememberAll\<close>

definition exists_op :: "string \<Rightarrow> engine \<Rightarrow> pid \<times> engine" where
  "exists_op key s =
     (let (g, s1) = get_op key s;
          (promise, s2) = new_promise s1
      in (promise, await_promise g (ExistsGet promise) s2))"

definition listMarkerKey :: "string \<Rightarrow> string" where
  "listMarkerKey prefix = prefix @ ''__list__''"

definition rememberAll ::
    "string \<Rightarrow> fid \<Rightarrow> (jsval \<Rightarrow> js_error + jsval) \<Rightarrow> nat option \<Rightarrow> nat option \<Rightarrow> engine
       \<Rightarrow> pid \<times> engine" where
  "rememberAll prefix fallback getKey ttl listTTL s =
     (case rememberAllPromises s prefix of
        Some found \<Rightarrow> (found, s)
      | None \<Rightarrow>
          (let (promise, s1) = new_promise s;
               s2 = (case listTTL of
                       Some l \<Rightarrow>
                         (let (e, s') = exists_op (listMarkerKey prefix) s1
                          in await_promise e
                               (RememberAllExists prefix fallback getKey ttl l promise) s')
                     | None \<Rightarrow>
                         await_ext (ListProducer fallback promise)
                           (RememberAllFallback prefix getKey ttl None promise) s1)
           in (promise, s2\<lparr>rememberAllPromises := (rememberAllPromises s2)(prefix \<mapsto> promise)\<rparr>)))"

definition rememberAll_finish :: "string \<Rightarrow> pid \<Rightarrow> settlement \<Rightarrow> engine \<Rightarrow> engine" where
  "rememberAll_finish prefix promise outcome s =
     settle promise outcome (s\<lparr>rememberAllPromises := (rememberAllPromises s)(prefix := None)\<rparr>)"

text \<open>
  The caller's \<^verbatim>\<open>getKey\<close> is a function \<open>getKey\<close> from the item to what the call
  gives: the error it throws or the value it returns, a string by its type and any value
  when it runs. It is taken to give the same for the same item whenever it is called.
\<close>

text \<open>
  \<^verbatim>\<open>`${prefix}${getKey(item)}`\<close> prints the key as \<^verbatim>\<open>String\<close> does: a number in
  decimal, an array as its elements joined by commas, \<^verbatim>\<open>null\<close> and \<^verbatim>\<open>undefined\<close>
  among them as nothing, and an object as \<^verbatim>\<open>[object Object]\<close>.
\<close>

function digits :: "nat \<Rightarrow> string" where
  "digits n =
     (if n < 10 then [''0123456789'' ! n]
      else digits (n div 10) @ [''0123456789'' ! (n mod 10)])"
  by pat_completeness auto
termination
  by (relation "measure (\<lambda>n. n)") auto

declare digits.simps [simp del]

definition decimal :: "int \<Rightarrow> string" where
  "decimal i = (if i < 0 then CHR ''-'' # digits (nat (- i)) else digits (nat i))"

fun to_string :: "jsval \<Rightarrow> string" and join_elements :: "jsval list \<Rightarrow> string" where
  "to_string Undefined = ''undefined''"
| "to_string Null = ''null''"
| "to_string (JBool b) = (if b then ''true'' else ''false'')"
| "to_string (JNum n) = decimal n"
| "to_string (JStr str) = str"
| "to_string (JArr xs) = join_elements xs"
| "to_string (JObj kvs) = ''[object Object]''"
| "join_elements [] = []"
| "join_elements [x] = (case x of Undefined \<Rightarrow> [] | Null \<Rightarrow> [] | other \<Rightarrow> to_string x)"
| "join_elements (x # y # ys) =
     (case x of Undefined \<Rightarrow> [] | Null \<Rightarrow> [] | other \<Rightarrow> to_string x)
       @ '','' @ join_elements (y # ys)"

text \<open>
  \<^verbatim>\<open>items.map(item => ({op: 'set', key: `${prefix}${getKey(item)}`, value: item, ttl}))\<close>:
  the first item on which \<^verbatim>\<open>getKey\<close> throws ends it.
\<close>

fun cache_operations ::
    "string \<Rightarrow> (jsval \<Rightarrow> js_error + jsval) \<Rightarrow> nat option \<Rightarrow> jsval list
       \<Rightarrow> js_error + batch_operation list" where
  "cache_operations prefix getKey ttl [] = Inr []"
| "cache_operations prefix getKey ttl (item # rest) =
     (case getKey item of
        Inl e \<Rightarrow> Inl e
      | Inr k \<Rightarrow>
          (case cache_operations prefix getKey ttl rest of
             Inl e \<Rightarrow> Inl e
           | Inr operations \<Rightarrow> Inr (OpSet (prefix @ to_string k) item ttl # operations)))"

text \<open>
  The \<^verbatim>\<open>Map\<close> behind \<^verbatim>\<open>getBy\<close>, as its entries in insertion order:
  \<^verbatim>\<open>itemMap.set\<close> replaces the value of a key that is present and appends a new key.
  The keys are what \<^verbatim>\<open>getKey\<close> returned, as they are. Values have no identity here:
  an array or object returned as a key is taken to be a new one at every call, which no
  later key equals.
\<close>

fun primitive :: "jsval \<Rightarrow> bool" where
  "primitive (JArr xs) = False"
| "primitive (JObj kvs) = False"
| "primitive v = True"

fun map_set :: "jsval \<Rightarrow> jsval \<Rightarrow> (jsval \<times> jsval) list \<Rightarrow> (jsval \<times> jsval) list" where
  "map_set k v [] = [(k, v)]"
| "map_set k v ((k', v') # m) =
     (if k' = k \<and> primitive k then (k', v) # m else (k', v') # map_set k v m)"

text \<open>
  \<^verbatim>\<open>items.forEach(item => { itemMap.set(getKey(item), item) })\<close>: the first item on
  which \<^verbatim>\<open>getKey\<close> throws ends it.
\<close>

fun forEach_set ::
    "(jsval \<Rightarrow> js_error + jsval) \<Rightarrow> jsval list \<Rightarrow> (jsval \<times> jsval) list
       \<Rightarrow> js_error + (jsval \<times> jsval) list" where
  "forEach_set getKey [] m = Inr m"
| "forEach_set getKey (item # rest) m =
     (case getKey item of
        Inl e \<Rightarrow> Inl e
      | Inr k \<Rightarrow> forEach_set getKey rest (map_set k item m))"

definition itemMap ::
    "(jsval \<Rightarrow> js_error + jsval) \<Rightarrow> jsval list \<Rightarrow> js_error + (jsval \<times> jsval) list" where
  "itemMap getKey items = forEach_set getKey items []"

text \<open>\<^verbatim>\<open>getBy: (key: string) => itemMap.get(key)\<close>.\<close>

definition getBy :: "(jsval \<times> jsval) list \<Rightarrow> string \<Rightarrow> jsval" where
  "getBy m key = (case map_of m (JStr key) of Some v \<Rightarrow> v | None \<Rightarrow> Undefined)"

text \<open>
  The end of the \<^verbatim>\<open>try\<close> block of \<^verbatim>\<open>rememberAll\<close>: the index is built and the
  result returned, or \<^verbatim>\<open>getKey\<close> throws and the call rejects.
\<close>

definition rememberAll_result ::
    "(jsval \<Rightarrow> js_error + jsval) \<Rightarrow> jsval list \<Rightarrow> settlement" where
  "rememberAll_result getKey items =
     (case itemMap getKey items of
        Inl e \<Rightarrow> Rejected e
      | Inr m \<Rightarrow> Fulfilled (PAll items m))"

text \<open>\<^verbatim>\<open>items.map(item => item.value)\<close>: the first throwing element ends it.\<close>

fun map_value :: "jsval list \<Rightarrow> js_error + jsval list" where
  "map_value [] = Inr []"
| "map_value (item # rest) =
     (case getProp item ''value'' of
        Inl e \<Rightarrow> Inl e
      | Inr v \<Rightarrow> (case map_value rest of Inl e \<Rightarrow> Inl e | Inr vs \<Rightarrow> Inr (v # vs)))"

text \<open>\<^verbatim>\<open>scanResult.items?.map(item => item.value) || []\<close>.\<close>

definition scan_items :: "jsval \<Rightarrow> js_error + jsval list" where
  "scan_items scanResult =
     (case getProp scanResult ''items'' of
        Inl e \<Rightarrow> Inl e
      | Inr Undefined \<Rightarrow> Inr []
      | Inr Null \<Rightarrow> Inr []
      | Inr (JArr xs) \<Rightarrow> map_value xs
      | Inr other \<Rightarrow> Inl (typeError ''scanResult.items.map is not a function''))"

fun truthy :: "payload \<Rightarrow> bool" where
  "truthy (PVal Undefined) = False"
| "truthy (PVal Null) = False"
| "truthy (PVal (JBool b)) = b"
| "truthy (PVal (JNum n)) = (n \<noteq> 0)"
| "truthy (PVal (JStr str)) = (str \<noteq> [])"
| "truthy p = True"

subsection \<open>Resuming after an await\<close>

text \<open>
  The code that runs when the awaited promise has settled, up to the next \<^verbatim>\<open>await\<close> or
  the end of the body. A rejection is thrown at the \<^verbatim>\<open>await\<close>.
\<close>

fun resume :: "frame \<Rightarrow> settlement \<Rightarrow> engine \<Rightarrow> engine" where
  "resume k Pending s = s"
| "resume (RememberGet key fallback ttl promise) (Rejected e) s =
     remember_finish key promise (Rejected e) s"
| "resume (RememberGet key fallback ttl promise) (Fulfilled cached) s =
     (if cached \<noteq> PVal Null then remember_finish key promise (Fulfilled cached) s
      else await_ext (Producer fallback promise) (RememberFallback key ttl promise) s)"
| "resume (RememberSet key v promise) (Rejected e) s =
     remember_finish key promise (Rejected e) s"
| "resume (RememberSet key v promise) (Fulfilled u) s =
     remember_finish key promise (Fulfilled (PVal v)) s"
| "resume (ExistsGet promise) (Rejected e) s = settle promise (Rejected e) s"
| "resume (ExistsGet promise) (Fulfilled v) s =
     settle promise (Fulfilled (PVal (JBool (v \<noteq> PVal Null)))) s"
| "resume (RememberAllExists prefix fallback getKey ttl l promise) (Rejected e) s =
     rememberAll_finish prefix promise (Rejected e) s"
| "resume (RememberAllExists prefix fallback getKey ttl l promise) (Fulfilled markerExists) s =
     (if truthy markerExists
      then await_ext (HttpGetScan prefix) (RememberAllScan prefix getKey promise) s
      else await_ext (ListProducer fallback promise)
             (RememberAllFallback prefix getKey ttl (Some l) promise) s)"
| "resume (RememberAllSetMarker prefix items getKey promise) (Rejected e) s =
     rememberAll_finish prefix promise (Rejected e) s"
| "resume (RememberAllSetMarker prefix items getKey promise) (Fulfilled u) s =
     rememberAll_finish prefix promise (rememberAll_result getKey items) s"

text \<open>
  The same for an external call. \<^verbatim>\<open>batch\<close> reads \<^verbatim>\<open>response.results\<close> before
  \<^verbatim>\<open>rememberAll\<close> goes on.
\<close>

fun resume_ext :: "xframe \<Rightarrow> js_error + jsval \<Rightarrow> engine \<Rightarrow> engine" where
  "resume_ext (FlushPost queue) outcome s = flushBatch_resume queue outcome s"
| "resume_ext (RememberFallback key ttl promise) (Inl e) s =
     remember_finish key promise (Rejected e) s"
| "resume_ext (RememberFallback key ttl promise) (Inr v) s =
     (let (p, s1) = set_op key v ttl s
      in await_promise p (RememberSet key v promise) s1)"
| "resume_ext (RememberAllScan prefix getKey promise) (Inl e) s =
     rememberAll_finish prefix promise (Rejected e) s"
| "resume_ext (RememberAllScan prefix getKey promise) (Inr scanResult) s =
     (case scan_items scanResult of
        Inl e \<Rightarrow> rememberAll_finish prefix promise (Rejected e) s
      | Inr items \<Rightarrow> rememberAll_finish prefix promise (rememberAll_result getKey items) s)"
| "resume_ext (RememberAllFallback prefix getKey ttl listTTL promise) (Inl e) s =
     rememberAll_finish prefix promise (Rejected e) s"
| "resume_ext (RememberAllFallback prefix getKey ttl listTTL promise) (Inr fetched) s =
     (case fetched of
        JArr items \<Rightarrow>
          (case cache_operations prefix getKey ttl items of
             Inl e \<Rightarrow> rememberAll_finish prefix promise (Rejected e) s
           | Inr operations \<Rightarrow>
               await_ext (HttpPostBatch operations)
                 (RememberAllBatch prefix items getKey listTTL promise) s)
      | Undefined \<Rightarrow>
          rememberAll_finish prefix promise
            (Rejected (typeError ''Cannot read properties of undefined'')) s
      | Null \<Rightarrow>
          rememberAll_finish prefix promise
            (Rejected (typeError ''Cannot read properties of null'')) s
      | other \<Rightarrow>
          rememberAll_finish prefix promise
            (Rejected (typeError ''items.map is not a function'')) s)"
| "resume_ext (RememberAllBatch prefix items getKey listTTL promise) (Inl e) s =
     rememberAll_finish prefix promise (Rejected e) s"
| "resume_ext (RememberAllBatch prefix items getKey listTTL promise) (Inr response) s =
     (case getProp response ''results'' of
        Inl e \<Rightarrow> rememberAll_finish prefix promise (Rejected e) s
      | Inr results \<Rightarrow>
          (case listTTL of
             Some l \<Rightarrow>
               (let (p, s1) = set_op (listMarkerKey prefix) (JBool True) (Some l) s
                in await_promise p (RememberAllSetMarker prefix items getKey promise) s1)
           | None \<Rightarrow> rememberAll_finish prefix promise (rememberAll_result getKey items) s))"

subsection \<open>Runs of the client\<close>

text \<open>
  One event is one uninterrupted stretch of the single thread: a call from the
  application, the flush microtask, the continuation of an \<^verbatim>\<open>await\<close> whose promise has
  settled, or the arrival of the outcome of an external call.
\<close>

datatype event =
    CallSet string jsval "nat option"
  | CallGet string
  | CallDelete string
  | CallExists string
  | CallRemember string fid "nat option"
  | CallRememberAll string fid "jsval \<Rightarrow> js_error + jsval" "nat option" "nat option"
  | Microtask
  | Resume nat
  | Arrive nat "js_error + jsval"

definition remove_nth :: "nat \<Rightarrow> 'a list \<Rightarrow> 'a list" where
  "remove_nth i xs = take i xs @ drop (Suc i) xs"

definition run_waiter :: "nat \<Rightarrow> engine \<Rightarrow> engine" where
  "run_waiter i s =
     (if i < length (waiters s) then
        (let (p, k) = waiters s ! i in
         if promises s p = Pending then s
         else resume k (promises s p) (s\<lparr>waiters := remove_nth i (waiters s)\<rparr>))
      else s)"

definition arrive :: "nat \<Rightarrow> js_error + jsval \<Rightarrow> engine \<Rightarrow> engine" where
  "arrive x outcome s =
     (case map_of (inflight s) x of
        None \<Rightarrow> s
      | Some k \<Rightarrow> resume_ext k outcome (s\<lparr>inflight := filter (\<lambda>(y, k'). y \<noteq> x) (inflight s)\<rparr>))"

fun exec :: "event \<Rightarrow> engine \<Rightarrow> engine" where
  "exec (CallSet key v ttl) s = snd (set_op key v ttl s)"
| "exec (CallGet key) s = snd (get_op key s)"
| "exec (CallDelete key) s = snd (delete_op key s)"
| "exec (CallExists key) s = snd (exists_op key s)"
| "exec (CallRemember key fallback ttl) s = snd (remember key fallback ttl s)"
| "exec (CallRememberAll prefix fallback getKey ttl listTTL) s =
     snd (rememberAll prefix fallback getKey ttl listTTL s)"
| "exec Microtask s = (if batchScheduled s then flushBatch s else s)"
| "exec (Resume i) s = run_waiter i s"
| "exec (Arrive x outcome) s = arrive x outcome s"

definition run :: "event list \<Rightarrow> engine \<Rightarrow> engine" where
  "run es s = fold exec es s"

section \<open>Well-formed client states\<close>

text \<open>
  The promises a queued item settles, in the order its closures call them: the first
  caller's, then one per collapsed \<^verbatim>\<open>get\<close>.
\<close>

fun resolver_pids :: "resolver \<Rightarrow> pid list" where
  "resolver_pids (Resolve p) = [p]"
| "resolver_pids (ResolveNullConv p) = [p]"
| "resolver_pids (ResolveBoth r p) = resolver_pids r @ [p]"

fun rejecter_pids :: "rejecter \<Rightarrow> pid list" where
  "rejecter_pids (Reject p) = [p]"
| "rejecter_pids (RejectBoth r p) = rejecter_pids r @ [p]"

definition handles :: "queued \<Rightarrow> pid list" where
  "handles item = resolver_pids (resolve item)"

text \<open>
  The handles of a closure that are resolved through the wrapper of a first \<^verbatim>\<open>get\<close>,
  the one that turns \<^verbatim>\<open>undefined\<close> into \<^verbatim>\<open>null\<close>.
\<close>

fun null_converting :: "resolver \<Rightarrow> pid list" where
  "null_converting (Resolve p) = []"
| "null_converting (ResolveNullConv p) = [p]"
| "null_converting (ResolveBoth r p) = null_converting r"

definition wf_item :: "queued \<Rightarrow> bool" where
  "wf_item item = (rejecter_pids (reject item) = resolver_pids (resolve item))"

definition queue_pids :: "queued list \<Rightarrow> pid list" where
  "queue_pids queue = concat (map handles queue)"

fun frame_pids :: "frame \<Rightarrow> pid list" where
  "frame_pids (RememberGet key fallback ttl promise) = [promise]"
| "frame_pids (RememberSet key v promise) = [promise]"
| "frame_pids (ExistsGet promise) = [promise]"
| "frame_pids (RememberAllExists prefix fallback getKey ttl l promise) = [promise]"
| "frame_pids (RememberAllSetMarker prefix items getKey promise) = [promise]"

fun xframe_items :: "xframe \<Rightarrow> queued list" where
  "xframe_items (FlushPost queue) = queue"
| "xframe_items k = []"

fun xframe_pids :: "xframe \<Rightarrow> pid list" where
  "xframe_pids (FlushPost queue) = queue_pids queue"
| "xframe_pids (RememberFallback key ttl promise) = [promise]"
| "xframe_pids (RememberAllScan prefix getKey promise) = [promise]"
| "xframe_pids (RememberAllFallback prefix getKey ttl listTTL promise) = [promise]"
| "xframe_pids (RememberAllBatch prefix items getKey listTTL promise) = [promise]"

text \<open>Every promise that some pending piece of work of the client will settle.\<close>

definition inflight_pids :: "(nat \<times> xframe) list \<Rightarrow> pid list" where
  "inflight_pids xs = concat (map (\<lambda>e. xframe_pids (snd e)) xs)"

definition waiter_pids :: "(pid \<times> frame) list \<Rightarrow> pid list" where
  "waiter_pids ws = concat (map (\<lambda>e. frame_pids (snd e)) ws)"

definition owned :: "engine \<Rightarrow> pid list" where
  "owned s = queue_pids (batchQueue s) @ inflight_pids (inflight s) @ waiter_pids (waiters s)"

definition inflight_items :: "(nat \<times> xframe) list \<Rightarrow> queued list" where
  "inflight_items xs = concat (map (\<lambda>e. xframe_items (snd e)) xs)"

definition all_items :: "engine \<Rightarrow> queued list" where
  "all_items s = batchQueue s @ inflight_items (inflight s)"

text \<open>The \<^verbatim>\<open>remember\<close> sequences in progress: key and promise.\<close>

fun frame_key :: "frame \<Rightarrow> (string \<times> pid) list" where
  "frame_key (RememberGet key fallback ttl promise) = [(key, promise)]"
| "frame_key (RememberSet key v promise) = [(key, promise)]"
| "frame_key k = []"

fun xframe_key :: "xframe \<Rightarrow> (string \<times> pid) list" where
  "xframe_key (RememberFallback key ttl promise) = [(key, promise)]"
| "xframe_key k = []"

definition waiter_keys :: "(pid \<times> frame) list \<Rightarrow> (string \<times> pid) list" where
  "waiter_keys ws = concat (map (\<lambda>e. frame_key (snd e)) ws)"

definition inflight_keys :: "(nat \<times> xframe) list \<Rightarrow> (string \<times> pid) list" where
  "inflight_keys xs = concat (map (\<lambda>e. xframe_key (snd e)) xs)"

definition remember_live :: "engine \<Rightarrow> (string \<times> pid) list" where
  "remember_live s = waiter_keys (waiters s) @ inflight_keys (inflight s)"

text \<open>The sequences that have not reached their producer yet.\<close>

fun frame_before_producer :: "frame \<Rightarrow> pid list" where
  "frame_before_producer (RememberGet key fallback ttl promise) = [promise]"
| "frame_before_producer k = []"

definition before_producer :: "(pid \<times> frame) list \<Rightarrow> pid list" where
  "before_producer ws = concat (map (\<lambda>e. frame_before_producer (snd e)) ws)"

fun is_producer_call :: "pid \<Rightarrow> ext_call \<Rightarrow> bool" where
  "is_producer_call p (Producer f q) = (q = p)"
| "is_producer_call p c = False"

text \<open>How often the \<^verbatim>\<open>remember\<close> sequence of promise \<open>p\<close> has invoked its producer.\<close>

definition producer_calls :: "pid \<Rightarrow> ext_call list \<Rightarrow> nat" where
  "producer_calls p calls = length (filter (is_producer_call p) calls)"

text \<open>
  The invariant of every run. No promise has two owners, an owned promise is pending,
  and so is a promise not yet created; the two closures of a queued item settle the same
  promises; an external call in flight has one continuation; the registry of
  \<^verbatim>\<open>remember\<close> lists exactly the sequences in progress, one per key; no sequence has
  invoked its producer twice.
\<close>

definition inv_owned :: "engine \<Rightarrow> bool" where
  "inv_owned s =
     (distinct (owned s)
      \<and> (\<forall>p \<in> set (owned s). p < nextPid s \<and> promises s p = Pending)
      \<and> (\<forall>p. nextPid s \<le> p \<longrightarrow> promises s p = Pending)
      \<and> (\<forall>item \<in> set (all_items s). wf_item item))"

definition inv_inflight :: "engine \<Rightarrow> bool" where
  "inv_inflight s =
     (distinct (map fst (inflight s))
      \<and> (\<forall>e \<in> set (inflight s). fst e < length (sent s)))"

definition registry_ok :: "(string \<rightharpoonup> pid) \<Rightarrow> (string \<times> pid) list \<Rightarrow> bool" where
  "registry_ok m live =
     (distinct (map fst live) \<and> (\<forall>k p. m k = Some p \<longleftrightarrow> (k, p) \<in> set live))"

definition inv_registry :: "engine \<Rightarrow> bool" where
  "inv_registry s = registry_ok (rememberPromises s) (remember_live s)"

definition inv_producer :: "engine \<Rightarrow> bool" where
  "inv_producer s =
     ((\<forall>p. producer_calls p (sent s) \<le> 1)
      \<and> (\<forall>p. nextPid s \<le> p \<longrightarrow> producer_calls p (sent s) = 0)
      \<and> (\<forall>p \<in> set (before_producer (waiters s)). producer_calls p (sent s) = 0))"

definition inv_core :: "engine \<Rightarrow> bool" where
  "inv_core s = (inv_owned s \<and> inv_inflight s \<and> inv_producer s)"

definition inv :: "engine \<Rightarrow> bool" where
  "inv s = (inv_core s \<and> inv_registry s)"

section \<open>The server: batch and scan\<close>

text \<open>
  The handlers of \<^verbatim>\<open>LixCacheApi.Router\<close> for \<^verbatim>\<open>POST /cache/batch\<close> and
  \<^verbatim>\<open>GET /cache/scan\<close>, over the table they keep in Cachex. Cachex is a library: its
  table is taken as the list of its entries, in the order in which \<^verbatim>\<open>Cachex.keys\<close>
  lists them, and \<^verbatim>\<open>Cachex.put\<close> replaces the entry of a key. Expiry needs a clock
  and is left out: every entry is taken to be within its \<^verbatim>\<open>ttl\<close>, and stays until
  it is removed.
\<close>

type_synonym store = "(string \<times> jsval) list"

definition store_put :: "string \<Rightarrow> jsval \<Rightarrow> store \<Rightarrow> store" where
  "store_put k v st = (k, v) # filter (\<lambda>(k', v'). k' \<noteq> k) st"

text \<open>
  One clause of the \<^verbatim>\<open>Enum.map\<close> of the batch handler. The handler sees the request
  as JSON, and \<^verbatim>\<open>JSON.stringify\<close> drops a property whose value is \<^verbatim>\<open>undefined\<close>:
  a \<^verbatim>\<open>set\<close> of \<^verbatim>\<open>undefined\<close> arrives without \<^verbatim>\<open>"value"\<close>, matches no clause,
  and the handler raises (\<open>None\<close>). For a key without entry \<^verbatim>\<open>Cachex.get\<close> yields
  \<^verbatim>\<open>nil\<close>; the encoder of the answer is a library (jiffy), and \<^verbatim>\<open>nil\<close> is taken
  to reach the client as \<^verbatim>\<open>null\<close>, the value the client's tests expect for a key
  that is not cached.
\<close>

fun store_apply :: "batch_operation \<Rightarrow> store \<Rightarrow> (jsval \<times> store) option" where
  "store_apply (OpGet k) st =
     Some (JObj [(''op'', JStr ''get''), (''key'', JStr k),
                 (''value'', case map_of st k of Some v \<Rightarrow> v | None \<Rightarrow> Null)], st)"
| "store_apply (OpSet k v ttl) st =
     (if v = Undefined then None
      else Some (JObj [(''op'', JStr ''set''), (''key'', JStr k), (''success'', JBool True)],
                 store_put k v st))"
| "store_apply (OpDelete k) st =
     Some (JObj [(''op'', JStr ''delete''), (''key'', JStr k), (''success'', JBool True)],
           filter (\<lambda>(k', v'). k' \<noteq> k) st)"

text \<open>
  \<^verbatim>\<open>Enum.map(operations, ...)\<close>: the operations in the order received, each on the
  table the one before left; when one raises, the ones before it have taken effect and
  there are no results.
\<close>

fun store_results :: "batch_operation list \<Rightarrow> store \<Rightarrow> jsval list option \<times> store" where
  "store_results [] st = (Some [], st)"
| "store_results (oper # rest) st =
     (case store_apply oper st of
        None \<Rightarrow> (None, st)
      | Some (r, st1) \<Rightarrow>
          (case store_results rest st1 of
             (None, st2) \<Rightarrow> (None, st2)
           | (Some rs, st2) \<Rightarrow> (Some (r # rs), st2)))"

text \<open>The body of the answer \<^verbatim>\<open>200\<close> of the batch handler, \<open>None\<close> when it raised.\<close>

definition store_batch :: "batch_operation list \<Rightarrow> store \<Rightarrow> jsval option \<times> store" where
  "store_batch operations st =
     (case store_results operations st of
        (None, st') \<Rightarrow> (None, st')
      | (Some rs, st') \<Rightarrow> (Some (JObj [(''results'', JArr rs)]), st'))"

text \<open>\<^verbatim>\<open>String.starts_with?(key, prefix)\<close>.\<close>

definition starts_with :: "string \<Rightarrow> string \<Rightarrow> bool" where
  "starts_with k prefix = (take (length prefix) k = prefix)"

text \<open>
  The scan handler without \<^verbatim>\<open>keys_only\<close>, as \<^verbatim>\<open>LixCache.scan(prefix)\<close> calls it:
  the keys that start with the prefix, each with its value.
\<close>

definition store_scan :: "string \<Rightarrow> store \<Rightarrow> jsval" where
  "store_scan prefix st =
     (let matching = filter (\<lambda>(k, v). starts_with k prefix) st
      in JObj [(''items'', JArr (map (\<lambda>(k, v). JObj [(''key'', JStr k), (''value'', v)]) matching)),
               (''count'', JNum (int (length matching)))])"

section \<open>The batch as the specification words it\<close>

text \<open>
  The specification's queue, by its words: an ordered list of the operations not yet
  sent; a write or a remove is appended; a read is appended unless the queue already
  holds a read of the same key, in which case nothing is enqueued. The batch of a cycle
  is the queue after the cycle's calls, in that order.
\<close>

fun is_queue_call :: "event \<Rightarrow> bool" where
  "is_queue_call (CallSet k v t) = True"
| "is_queue_call (CallGet k) = True"
| "is_queue_call (CallDelete k) = True"
| "is_queue_call e = False"

fun spec_enqueue :: "batch_operation list \<Rightarrow> event \<Rightarrow> batch_operation list" where
  "spec_enqueue q (CallSet k v t) = q @ [OpSet k v t]"
| "spec_enqueue q (CallGet k) = (if OpGet k \<in> set q then q else q @ [OpGet k])"
| "spec_enqueue q (CallDelete k) = q @ [OpDelete k]"
| "spec_enqueue q e = q"

definition spec_batch :: "event list \<Rightarrow> batch_operation list" where
  "spec_batch calls = foldl spec_enqueue [] calls"

section \<open>Defaults and sample exchanges\<close>



text \<open>Bodies of batch responses, as \<^verbatim>\<open>response.json()\<close> parses them.\<close>

definition batch_response :: "jsval list \<Rightarrow> jsval" where
  "batch_response rs = JObj [(''results'', JArr rs)]"

definition get_result :: "string \<Rightarrow> jsval \<Rightarrow> jsval" where
  "get_result k v = JObj [(''op'', JStr ''get''), (''key'', JStr k), (''value'', v)]"

definition set_result :: "string \<Rightarrow> bool \<Rightarrow> jsval" where
  "set_result k ok = JObj [(''op'', JStr ''set''), (''key'', JStr k), (''success'', JBool ok)]"

definition delete_result :: "string \<Rightarrow> bool \<Rightarrow> jsval" where
  "delete_result k ok = JObj [(''op'', JStr ''delete''), (''key'', JStr k), (''success'', JBool ok)]"


text \<open>A result that reports an error instead of naming an operation.\<close>

definition error_result :: "string \<Rightarrow> jsval" where
  "error_result msg = JObj [(''error'', JStr msg)]"

text \<open>
  Sample runs of \<^verbatim>\<open>remember("K", producer, {ttl: 60})\<close> on a new client: up to the
  answer of the read (a miss, then a hit), up to the call of the producer, and up to
  the acknowledgement of the write of the produced value 5.
\<close>

definition miss_read :: "event list" where
  "miss_read = [CallRemember ''K'' 7 (Some 60), Microtask,
                Arrive 0 (Inr (batch_response [get_result ''K'' Null]))]"

definition hit_read :: "event list" where
  "hit_read = [CallRemember ''K'' 7 (Some 60), Microtask,
               Arrive 0 (Inr (batch_response [get_result ''K'' (JStr ''cached'')]))]"

definition miss_produce :: "event list" where
  "miss_produce = miss_read @ [Resume 0]"

definition miss_write :: "event list" where
  "miss_write = miss_produce @ [Arrive 1 (Inr (JNum 5)), Microtask,
                                Arrive 2 (Inr (batch_response [set_result ''K'' True]))]"

text \<open>
  Two calls of \<^verbatim>\<open>remember\<close> for "K" before anything settles, with a store that
  holds a value under "K".
\<close>

definition concurrent_hit :: "event list" where
  "concurrent_hit = [CallRemember ''K'' 7 (Some 60), CallRemember ''K'' 7 (Some 60), Microtask,
                     Arrive 0 (Inr (batch_response [get_result ''K'' (JStr ''cached'')])),
                     Resume 0]"

text \<open>The error of a producer that throws \<^verbatim>\<open>new Error('Computation failed')\<close>.\<close>

definition computation_failed :: js_error where
  "computation_failed = Foreign (Thrown ErrorClass ''Error'' ''Computation failed'')"

text \<open>
  Sample runs of
  \<^verbatim>\<open>rememberAll("user:", producer, {getKey: user => user.id, ttl: 300, listTTL: 60})\<close>
  on a new client. \<open>user_id\<close> is \<^verbatim>\<open>user => user.id\<close>, and \<open>user_id_string\<close> is
  \<^verbatim>\<open>user => user.id.toString()\<close>, which throws where there is no \<^verbatim>\<open>id\<close>.
\<close>

definition user_id :: "jsval \<Rightarrow> js_error + jsval" where
  "user_id user = getProp user ''id''"

definition user_id_string :: "jsval \<Rightarrow> js_error + jsval" where
  "user_id_string user =
     (case getProp user ''id'' of
        Inl e \<Rightarrow> Inl e
      | Inr Undefined \<Rightarrow> Inl (typeError ''Cannot read properties of undefined'')
      | Inr Null \<Rightarrow> Inl (typeError ''Cannot read properties of null'')
      | Inr v \<Rightarrow> Inr (JStr (to_string v)))"

definition alice :: jsval where
  "alice = JObj [(''id'', JStr ''1''), (''name'', JStr ''Alice'')]"

definition bob :: jsval where
  "bob = JObj [(''id'', JStr ''2''), (''name'', JStr ''Bob'')]"

text \<open>A second item with the \<^verbatim>\<open>id\<close> of the first.\<close>

definition alicia :: jsval where
  "alicia = JObj [(''id'', JStr ''1''), (''name'', JStr ''Alicia'')]"

text \<open>Up to the settlement of \<^verbatim>\<open>exists("user:__list__")\<close>, the marker present and absent.\<close>

definition marker_present :: "event list" where
  "marker_present = [CallRememberAll ''user:'' 9 user_id (Some 300) (Some 60), Microtask,
                     Arrive 0 (Inr (batch_response [get_result ''user:__list__'' (JBool True)])),
                     Resume 0]"

definition marker_absent :: "event list" where
  "marker_absent = [CallRememberAll ''user:'' 9 user_id (Some 300) (Some 60), Microtask,
                    Arrive 0 (Inr (batch_response [get_result ''user:__list__'' Null])),
                    Resume 0]"

text \<open>
  The marker absent: up to the call of the producer, up to the exchange that caches its
  items, up to the queued write of the marker, and up to the acknowledgement of that
  write.
\<close>

definition list_produce :: "event list" where
  "list_produce = marker_absent @ [Resume 0]"

definition list_cache :: "event list" where
  "list_cache = list_produce @ [Arrive 1 (Inr (JArr [alice, bob]))]"

definition list_mark :: "event list" where
  "list_mark = list_cache @ [Arrive 2 (Inr (batch_response [set_result ''user:1'' True,
                                                            set_result ''user:2'' True]))]"

definition list_marked :: "event list" where
  "list_marked = list_mark @ [Microtask,
                              Arrive 3 (Inr (batch_response [set_result ''user:__list__'' True]))]"

text \<open>The marker present: up to the scan.\<close>

definition list_scan :: "event list" where
  "list_scan = marker_present @ [Resume 0]"

text \<open>
  The same with \<^verbatim>\<open>getKey: user => user.id.toString()\<close>, up to the scan and up to the
  call of the producer, and an item without \<^verbatim>\<open>id\<close>.
\<close>

definition strict_scan :: "event list" where
  "strict_scan = [CallRememberAll ''user:'' 9 user_id_string (Some 300) (Some 60), Microtask,
                  Arrive 0 (Inr (batch_response [get_result ''user:__list__'' (JBool True)])),
                  Resume 0, Resume 0]"

definition strict_produce :: "event list" where
  "strict_produce = [CallRememberAll ''user:'' 9 user_id_string (Some 300) (Some 60), Microtask,
                     Arrive 0 (Inr (batch_response [get_result ''user:__list__'' Null])),
                     Resume 0, Resume 0]"

definition carol :: jsval where
  "carol = JObj [(''name'', JStr ''Carol'')]"

text \<open>The table of the server after the run with the marker absent.\<close>

definition users_table :: store where
  "users_table = [(''user:__list__'', JBool True), (''user:2'', bob), (''user:1'', alice)]"

text \<open>
  A client and a store together: \<^verbatim>\<open>remember(key, producer)\<close> on a new client, its read
  answered by the store, its producer throwing \<open>e\<close>, and after the rejection a plain
  \<^verbatim>\<open>get(key)\<close>, answered by the store again. The result is the promise of the
  \<^verbatim>\<open>remember\<close>, the promise of the read, the client and the store at the end
  (\<open>None\<close> if the server raised).
\<close>

definition failing_producer_then_read ::
    "string \<Rightarrow> fid \<Rightarrow> nat option \<Rightarrow> js_error \<Rightarrow> store
       \<Rightarrow> (pid \<times> pid \<times> engine \<times> store) option" where
  "failing_producer_then_read key fallback ttl e st =
     (let (p, s1) = remember key fallback ttl init
      in case store_batch [OpGet key] st of
           (None, st1) \<Rightarrow> None
         | (Some r1, st1) \<Rightarrow>
             (let s2 = run [Microtask, Arrive 0 (Inr r1), Resume 0, Arrive 1 (Inl e)] s1;
                  (q, s3) = get_op key s2
              in case store_batch [OpGet key] st1 of
                   (None, st2) \<Rightarrow> None
                 | (Some r2, st2) \<Rightarrow>
                     Some (p, q, run [Microtask, Arrive 2 (Inr r2)] s3, st2)))"

text \<open>
  A client and the server together: \<^verbatim>\<open>rememberAll\<close> with \<^verbatim>\<open>listTTL\<close> on a new
  client, the read of the marker answered by the batch handler from the table \<open>st\<close>, and
  the scan that follows answered by the scan handler from the table the batch handler
  left. The result is the promise of the call and the client at the end (\<open>None\<close> if the
  server raised).
\<close>

definition rememberAll_with_server ::
    "string \<Rightarrow> fid \<Rightarrow> (jsval \<Rightarrow> js_error + jsval) \<Rightarrow> nat option \<Rightarrow> nat \<Rightarrow> store
       \<Rightarrow> (pid \<times> engine) option" where
  "rememberAll_with_server prefix fallback getKey ttl l st =
     (let (p, s1) = rememberAll prefix fallback getKey ttl (Some l) init
      in case store_batch [OpGet (listMarkerKey prefix)] st of
           (None, st1) \<Rightarrow> None
         | (Some r1, st1) \<Rightarrow>
             Some (p, run [Microtask, Arrive 0 (Inr r1), Resume 0, Resume 0,
                           Arrive 1 (Inr (store_scan prefix st1))] s1))"

section \<open>Settling promises changes the heap only\<close>

lemma heap_only_fields:
  assumes "\<exists>h. s' = s\<lparr>promises := h\<rparr>"
  shows "batchQueue s' = batchQueue s" "batchScheduled s' = batchScheduled s"
    "rememberPromises s' = rememberPromises s" "rememberAllPromises s' = rememberAllPromises s"
    "nextPid s' = nextPid s" "waiters s' = waiters s" "inflight s' = inflight s" "sent s' = sent s"
  using assms by auto

lemma settle_heap_only: "\<exists>h. settle p r s = s\<lparr>promises := h\<rparr>"
  by (cases "promises s p = Pending") (auto simp: settle_def intro: exI [of _ "promises s"])

lemma promises_settle:
  "promises (settle p r s) q = (if q = p \<and> promises s p = Pending then r else promises s q)"
  by (simp add: settle_def)

lemma heap_only_trans:
  "\<exists>h. s'' = s'\<lparr>promises := h\<rparr> \<Longrightarrow> \<exists>h. s' = s\<lparr>promises := h\<rparr> \<Longrightarrow> \<exists>h. s'' = s\<lparr>promises := h\<rparr>"
  by auto

lemma call_resolve_heap_only: "\<exists>h. call_resolve r v s = s\<lparr>promises := h\<rparr>"
proof (induction r arbitrary: s)
  case (ResolveBoth r p)
  show ?case
    unfolding call_resolve.simps by (rule heap_only_trans [OF settle_heap_only ResolveBoth])
qed (simp_all add: settle_heap_only)

lemma call_reject_heap_only: "\<exists>h. call_reject r e s = s\<lparr>promises := h\<rparr>"
proof (induction r arbitrary: s)
  case (RejectBoth r p)
  show ?case
    unfolding call_reject.simps by (rule heap_only_trans [OF settle_heap_only RejectBoth])
qed (simp_all add: settle_heap_only)

lemma promises_call_reject:
  "promises (call_reject r e s) q =
     (if q \<in> set (rejecter_pids r) \<and> promises s q = Pending then Rejected e else promises s q)"
  by (induction r arbitrary: s) (auto simp: promises_settle)

lemma reject_all_heap_only: "\<exists>h. reject_all queue e s = s\<lparr>promises := h\<rparr>"
proof (induction queue arbitrary: s)
  case Nil
  show ?case by (auto intro: exI [of _ "promises s"])
next
  case (Cons item rest)
  show ?case
    unfolding reject_all.simps by (rule heap_only_trans [OF Cons call_reject_heap_only])
qed

lemma promises_reject_all:
  "promises (reject_all queue e s) q =
     (if q \<in> set (concat (map (\<lambda>item. rejecter_pids (reject item)) queue)) \<and> promises s q = Pending
      then Rejected e else promises s q)"
  by (induction queue arbitrary: s) (auto simp: promises_call_reject)

lemma promises_call_resolve_other:
  "q \<notin> set (resolver_pids r) \<Longrightarrow> promises (call_resolve r v s) q = promises s q"
  by (induction r arbitrary: s) (auto simp: promises_settle)

lemma promises_call_resolve_settled:
  "promises s q \<noteq> Pending \<Longrightarrow> promises (call_resolve r v s) q = promises s q"
  by (induction r arbitrary: s) (auto simp: promises_settle)

lemma queue_pids_simps [simp]:
  "queue_pids [] = []" "queue_pids (item # q) = handles item @ queue_pids q"
  "queue_pids (q @ q') = queue_pids q @ queue_pids q'"
  by (simp_all add: queue_pids_def)

lemma inflight_pids_simps [simp]:
  "inflight_pids [] = []" "inflight_pids (e # xs) = xframe_pids (snd e) @ inflight_pids xs"
  "inflight_pids (xs @ ys) = inflight_pids xs @ inflight_pids ys"
  by (simp_all add: inflight_pids_def)

lemma waiter_pids_simps [simp]:
  "waiter_pids [] = []" "waiter_pids (e # ws) = frame_pids (snd e) @ waiter_pids ws"
  "waiter_pids (ws @ ws') = waiter_pids ws @ waiter_pids ws'"
  by (simp_all add: waiter_pids_def)

lemma inflight_items_simps [simp]:
  "inflight_items [] = []" "inflight_items (e # xs) = xframe_items (snd e) @ inflight_items xs"
  "inflight_items (xs @ ys) = inflight_items xs @ inflight_items ys"
  by (simp_all add: inflight_items_def)

lemma waiter_keys_simps [simp]:
  "waiter_keys [] = []" "waiter_keys (e # ws) = frame_key (snd e) @ waiter_keys ws"
  "waiter_keys (ws @ ws') = waiter_keys ws @ waiter_keys ws'"
  by (simp_all add: waiter_keys_def)

lemma inflight_keys_simps [simp]:
  "inflight_keys [] = []" "inflight_keys (e # xs) = xframe_key (snd e) @ inflight_keys xs"
  "inflight_keys (xs @ ys) = inflight_keys xs @ inflight_keys ys"
  by (simp_all add: inflight_keys_def)

lemma before_producer_simps [simp]:
  "before_producer [] = []"
  "before_producer (e # ws) = frame_before_producer (snd e) @ before_producer ws"
  "before_producer (ws @ ws') = before_producer ws @ before_producer ws'"
  by (simp_all add: before_producer_def)

lemma producer_calls_simps [simp]:
  "producer_calls p [] = 0"
  "producer_calls p (calls @ calls2) = producer_calls p calls + producer_calls p calls2"
  "producer_calls p (Producer f q # calls) = (if q = p then 1 else 0) + producer_calls p calls"
  "producer_calls p (HttpPostBatch ops # calls) = producer_calls p calls"
  "producer_calls p (HttpGetScan prefix # calls) = producer_calls p calls"
  "producer_calls p (ListProducer f q # calls) = producer_calls p calls"
  by (simp_all add: producer_calls_def)

lemma inv_owned_step:
  assumes "inv_owned s"
    and sub: "mset (owned s') \<subseteq># mset (owned s) + mset [nextPid s..<nextPid s']"
    and le: "nextPid s \<le> nextPid s'"
    and heap: "\<And>p. p \<in> set (owned s') \<or> nextPid s' \<le> p \<Longrightarrow> promises s' p = promises s p"
    and wf: "\<forall>item \<in> set (all_items s'). wf_item item"
  shows "inv_owned s'"
proof -
  from assms(1) have d: "distinct (owned s)"
    and o: "\<And>p. p \<in> set (owned s) \<Longrightarrow> p < nextPid s \<and> promises s p = Pending"
    and u: "\<And>p. nextPid s \<le> p \<Longrightarrow> promises s p = Pending"
    by (auto simp: inv_owned_def)
  have dd: "distinct (owned s @ [nextPid s..<nextPid s'])"
    using d o by (fastforce simp: )
  have 1: "distinct (owned s')"
    unfolding distinct_count_atmost_1
  proof (intro allI)
    fix a
    have "count (mset (owned s')) a \<le> count (mset (owned s @ [nextPid s..<nextPid s'])) a"
      using mset_subset_eq_count [OF sub, of a] by simp
    also have "\<dots> \<le> 1"
      using dd unfolding distinct_count_atmost_1 by (auto split: if_splits)
    finally have "count (mset (owned s')) a \<le> 1" .
    then show "count (mset (owned s')) a = (if a \<in> set (owned s') then 1 else 0)"
      by (cases "a \<in> set (owned s')") (auto simp: count_eq_zero_iff le_Suc_eq not_in_iff)
  qed
  have mem: "\<And>p. p \<in> set (owned s') \<Longrightarrow> p \<in> set (owned s) \<or> (nextPid s \<le> p \<and> p < nextPid s')"
  proof -
    fix p assume "p \<in> set (owned s')"
    then have "p \<in># mset (owned s')" by simp
    with sub have "p \<in># mset (owned s) + mset [nextPid s..<nextPid s']"
      by (meson mset_subset_eqD)
    then show "p \<in> set (owned s) \<or> (nextPid s \<le> p \<and> p < nextPid s')" by auto
  qed
  have 2: "\<forall>p \<in> set (owned s'). p < nextPid s' \<and> promises s' p = Pending"
  proof
    fix p assume p: "p \<in> set (owned s')"
    from mem [OF p] le o u have "p < nextPid s' \<and> promises s p = Pending" by force
    with heap [of p] p show "p < nextPid s' \<and> promises s' p = Pending" by simp
  qed
  have 3: "\<forall>p. nextPid s' \<le> p \<longrightarrow> promises s' p = Pending"
    using heap u le by (metis order_trans)
  from 1 2 3 wf show ?thesis by (simp add: inv_owned_def)
qed

lemma registry_ok_add:
  assumes "registry_ok m live" "m key = None" "mset live' = add_mset (key, p) (mset live)"
  shows "registry_ok (m(key \<mapsto> p)) live'"
proof -
  from assms(3) have s: "set live' = insert (key, p) (set live)"
    by (metis set_mset_add_mset_insert set_mset_mset)
  from assms(3) have "mset (map fst live') = add_mset key (mset (map fst live))"
    by (metis fst_conv image_mset_add_mset mset_map)
  then have "mset (map fst live') = mset (key # map fst live)" by simp
  then have d: "distinct (map fst live') = distinct (key # map fst live)"
    by (rule mset_eq_imp_distinct_iff)
  from assms(1,2) have "key \<notin> fst ` set live"
    by (force simp: registry_ok_def)
  with assms(1) d s show ?thesis
    by (force simp: registry_ok_def)
qed

lemma registry_ok_del:
  assumes "registry_ok m live" "mset live = add_mset (key, p) (mset live')"
  shows "registry_ok (m(key := None)) live'"
proof -
  from assms(2) have s: "set live = insert (key, p) (set live')"
    by (metis set_mset_add_mset_insert set_mset_mset)
  from assms(2) have "mset (map fst live) = add_mset key (mset (map fst live'))"
    by (metis fst_conv image_mset_add_mset mset_map)
  then have "mset (map fst live) = mset (key # map fst live')" by simp
  then have d: "distinct (map fst live) = distinct (key # map fst live')"
    by (rule mset_eq_imp_distinct_iff)
  with assms(1) have k: "key \<notin> fst ` set live'" and d': "distinct (map fst live')"
    by (auto simp: registry_ok_def)
  from assms(1) s k d' show ?thesis
    by (auto simp: registry_ok_def rev_image_eqI)
qed

lemma registry_ok_same:
  assumes "registry_ok m live" "mset live' = mset live"
  shows "registry_ok m live'"
proof -
  from assms(2) have "set live' = set live" by (rule mset_eq_setD)
  moreover from assms(2) have "mset (map fst live') = mset (map fst live)"
    by (metis mset_map)
  then have "distinct (map fst live') = distinct (map fst live)"
    by (rule mset_eq_imp_distinct_iff)
  ultimately show ?thesis using assms(1) by (simp add: registry_ok_def)
qed

lemma waiters_split:
  assumes "i < length ws"
  shows "ws = take i ws @ ws ! i # drop (Suc i) ws" "remove_nth i ws = take i ws @ drop (Suc i) ws"
  using assms by (simp_all add: id_take_nth_drop [symmetric] remove_nth_def)

lemma inflight_split:
  assumes "distinct (map fst xs)" "map_of xs x = Some k"
  shows "\<exists>A B. xs = A @ (x, k) # B \<and> filter (\<lambda>(y, k'). y \<noteq> x) xs = A @ B"
  using assms
proof (induction xs)
  case Nil
  then show ?case by simp
next
  case (Cons e xs)
  show ?case
  proof (cases "fst e = x")
    case True
    with Cons.prems have e: "e = (x, k)" by (cases e) auto
    from Cons.prems True have "x \<notin> fst ` set xs" by auto
    then have "filter (\<lambda>(y, k'). y \<noteq> x) xs = xs"
      by (force simp: filter_id_conv)
    with e show ?thesis by (intro exI [of _ "[]"] exI [of _ xs]) simp
  next
    case False
    with Cons.prems have "distinct (map fst xs)" "map_of xs x = Some k" by (auto split: if_splits)
    from Cons.IH [OF this] obtain A B where
      "xs = A @ (x, k) # B" "filter (\<lambda>(y, k'). y \<noteq> x) xs = A @ B" by blast
    with False have "e # xs = (e # A) @ (x, k) # B \<and>
        filter (\<lambda>(y, k'). y \<noteq> x) (e # xs) = (e # A) @ B"
      by (auto simp: case_prod_beta)
    then show ?thesis by blast
  qed
qed

lemma find_index_Some:
  "find_index P xs = Some i \<Longrightarrow> i < length xs \<and> P (xs ! i)"
  by (induction xs arbitrary: i) (auto split: if_splits)

lemma find_index_None:
  "find_index P xs = None \<longleftrightarrow> (\<forall>x \<in> set xs. \<not> P x)"
  by (induction xs) auto

section \<open>The retries of HttpClient.request\<close>

lemma fetches_simps [simp]:
  "fetches [] = 0" "fetches (Fetch # steps) = Suc (fetches steps)"
  "fetches (Sleep d # steps) = fetches steps"
  by (simp_all add: fetches_def)

section \<open>The effect of a queued call\<close>

lemma scheduleBatch_eq: "scheduleBatch s = s\<lparr>batchScheduled := True\<rparr>"
  by (cases "batchScheduled s") (simp_all add: scheduleBatch_def)

lemmas prim_defs = new_promise_def enqueue_def scheduleBatch_eq await_ext_def await_promise_def Let_def

lemma is_get_for_iff: "is_get_for k item \<longleftrightarrow> operation item = OpGet k"
  by (cases "operation item") (auto simp: is_get_for_def)

lemma set_op_effect:
  obtains Q' B' where
    "set_op k v t s = (nextPid s, s\<lparr>batchQueue := Q', batchScheduled := B', nextPid := Suc (nextPid s)\<rparr>)"
    "mset (queue_pids Q') = add_mset (nextPid s) (mset (queue_pids (batchQueue s)))"
    "(\<forall>item \<in> set (batchQueue s). wf_item item) \<longrightarrow> (\<forall>item \<in> set Q'. wf_item item)"
    "map operation Q' = map operation (batchQueue s) @ [OpSet k v t]"
proof -
  let ?Q = "batchQueue s @ [\<lparr>operation = OpSet k v t, resolve = Resolve (nextPid s), reject = Reject (nextPid s)\<rparr>]"
  have "set_op k v t s = (nextPid s, s\<lparr>batchQueue := ?Q, batchScheduled := True, nextPid := Suc (nextPid s)\<rparr>)"
    by (simp add: set_op_def prim_defs)
  then show ?thesis
    by (rule that) (simp_all add: handles_def wf_item_def)
qed

lemma delete_op_effect:
  obtains Q' B' where
    "delete_op k s = (nextPid s, s\<lparr>batchQueue := Q', batchScheduled := B', nextPid := Suc (nextPid s)\<rparr>)"
    "mset (queue_pids Q') = add_mset (nextPid s) (mset (queue_pids (batchQueue s)))"
    "(\<forall>item \<in> set (batchQueue s). wf_item item) \<longrightarrow> (\<forall>item \<in> set Q'. wf_item item)"
    "map operation Q' = map operation (batchQueue s) @ [OpDelete k]"
proof -
  let ?Q = "batchQueue s @ [\<lparr>operation = OpDelete k, resolve = Resolve (nextPid s), reject = Reject (nextPid s)\<rparr>]"
  have "delete_op k s = (nextPid s, s\<lparr>batchQueue := ?Q, batchScheduled := True, nextPid := Suc (nextPid s)\<rparr>)"
    by (simp add: delete_op_def prim_defs)
  then show ?thesis
    by (rule that) (simp_all add: handles_def wf_item_def)
qed

lemma get_op_effect:
  obtains Q' B' where
    "get_op k s = (nextPid s, s\<lparr>batchQueue := Q', batchScheduled := B', nextPid := Suc (nextPid s)\<rparr>)"
    "mset (queue_pids Q') = add_mset (nextPid s) (mset (queue_pids (batchQueue s)))"
    "(\<forall>item \<in> set (batchQueue s). wf_item item) \<longrightarrow> (\<forall>item \<in> set Q'. wf_item item)"
    "map operation Q' =
       map operation (batchQueue s) @ (if OpGet k \<in> operation ` set (batchQueue s) then [] else [OpGet k])"
proof (cases "find_index (is_get_for k) (batchQueue s)")
  case None
  let ?Q = "batchQueue s @ [\<lparr>operation = OpGet k, resolve = ResolveNullConv (nextPid s), reject = Reject (nextPid s)\<rparr>]"
  from None have 1: "get_op k s = (nextPid s, s\<lparr>batchQueue := ?Q, batchScheduled := True, nextPid := Suc (nextPid s)\<rparr>)"
    by (simp add: get_op_def prim_defs)
  from None have n: "OpGet k \<notin> operation ` set (batchQueue s)"
    by (auto simp: find_index_None is_get_for_iff)
  have 2: "mset (queue_pids ?Q) = add_mset (nextPid s) (mset (queue_pids (batchQueue s)))"
    by (simp add: handles_def)
  have 3: "(\<forall>item \<in> set (batchQueue s). wf_item item) \<longrightarrow> (\<forall>item \<in> set ?Q. wf_item item)"
    by (simp add: wf_item_def)
  have 4: "map operation ?Q =
       map operation (batchQueue s) @ (if OpGet k \<in> operation ` set (batchQueue s) then [] else [OpGet k])"
    using n by simp
  from 1 2 3 4 show ?thesis by (rule that)
next
  case (Some i)
  let ?q = "batchQueue s"
  let ?item = "(?q ! i)\<lparr>resolve := ResolveBoth (resolve (?q ! i)) (nextPid s),
                         reject := RejectBoth (reject (?q ! i)) (nextPid s)\<rparr>"
  from find_index_Some [OF Some] have i: "i < length ?q" and P: "is_get_for k (?q ! i)" by auto
  from Some have 1: "get_op k s = (nextPid s, s\<lparr>batchQueue := ?q[i := ?item], batchScheduled := batchScheduled s, nextPid := Suc (nextPid s)\<rparr>)"
    by (simp add: get_op_def prim_defs)
  have q: "?q = take i ?q @ ?q ! i # drop (Suc i) ?q"
    using i by (simp add: id_take_nth_drop [symmetric])
  have u: "?q[i := ?item] = take i ?q @ ?item # drop (Suc i) ?q"
    using i by (simp add: upd_conv_take_nth_drop)
  have 2: "mset (queue_pids (?q[i := ?item])) = add_mset (nextPid s) (mset (queue_pids ?q))"
    by (subst (2) q, subst u) (simp add: handles_def)
  have 3: "(\<forall>item \<in> set ?q. wf_item item) \<longrightarrow> (\<forall>item \<in> set (?q[i := ?item]). wf_item item)"
  proof
    assume a: "\<forall>item \<in> set ?q. wf_item item"
    with i have "wf_item (?q ! i)" by simp
    then have "wf_item ?item" by (simp add: wf_item_def)
    with a show "\<forall>item \<in> set (?q[i := ?item]). wf_item item"
      by (auto dest!: set_update_subset_insert [THEN subsetD])
  qed
  from P have "operation (?q ! i) = OpGet k"
    by (simp add: is_get_for_iff)
  with i have "OpGet k \<in> operation ` set ?q"
    by (metis imageI nth_mem)
  moreover have "map operation (?q[i := ?item]) = map operation ?q"
    by (simp add: map_update list_update_same_conv i)
  ultimately have 4: "map operation (?q[i := ?item]) =
       map operation ?q @ (if OpGet k \<in> operation ` set ?q then [] else [OpGet k])"
    by simp
  from 1 2 3 4 show ?thesis by (rule that)
qed

section \<open>The invariant holds along every run\<close>

lemmas settle_fields [simp] = heap_only_fields [OF settle_heap_only]
lemmas call_resolve_fields [simp] = heap_only_fields [OF call_resolve_heap_only]
lemmas call_reject_fields [simp] = heap_only_fields [OF call_reject_heap_only]
lemmas reject_all_fields [simp] = heap_only_fields [OF reject_all_heap_only]

lemma inv_coreD:
  assumes "inv_core s"
  shows "inv_owned s" "inv_inflight s" "inv_producer s"
  using assms by (simp_all add: inv_core_def)

lemma owned_bound: "inv_core s \<Longrightarrow> p \<in> set (owned s) \<Longrightarrow> p < nextPid s"
  by (simp add: inv_core_def inv_owned_def)

lemma owned_pending: "inv_core s \<Longrightarrow> p \<in> set (owned s) \<Longrightarrow> promises s p = Pending"
  by (simp add: inv_core_def inv_owned_def)

lemma fresh_pending: "inv_core s \<Longrightarrow> nextPid s \<le> p \<Longrightarrow> promises s p = Pending"
  by (simp add: inv_core_def inv_owned_def)

lemma fresh_not_owned: "inv_core s \<Longrightarrow> nextPid s \<le> p \<Longrightarrow> p \<notin> set (owned s)"
  using owned_bound by fastforce

lemma fresh_not_called: "inv_core s \<Longrightarrow> nextPid s \<le> p \<Longrightarrow> producer_calls p (sent s) = 0"
  by (simp add: inv_core_def inv_producer_def)

text \<open>The steps every event is made of.\<close>

lemma core_queue_step:
  assumes "inv_core s"
    and "mset (queue_pids Q') = add_mset (nextPid s) (mset (queue_pids (batchQueue s)))"
    and "(\<forall>item \<in> set (batchQueue s). wf_item item) \<longrightarrow> (\<forall>item \<in> set Q'. wf_item item)"
  shows "inv_core (s\<lparr>batchQueue := Q', batchScheduled := B', nextPid := Suc (nextPid s)\<rparr>)"
    (is "inv_core ?s'")
proof -
  note c = inv_coreD [OF assms(1)]
  have "inv_owned ?s'"
  proof (rule inv_owned_step [OF c(1)])
    show "mset (owned ?s') \<subseteq># mset (owned s) + mset [nextPid s..<nextPid ?s']"
      using assms(2) by (simp add: owned_def)
    show "\<forall>item \<in> set (all_items ?s'). wf_item item"
      using c(1) assms(3) by (auto simp: inv_owned_def all_items_def)
  qed simp_all
  moreover have "inv_inflight ?s'" using c(2) by (simp add: inv_inflight_def)
  moreover have "inv_producer ?s'" using c(3) by (auto simp: inv_producer_def)
  ultimately show ?thesis by (simp add: inv_core_def)
qed

lemma core_alloc:
  assumes "inv_core s"
  shows "inv_core (s\<lparr>nextPid := Suc (nextPid s)\<rparr>)" (is "inv_core ?s'")
proof -
  note c = inv_coreD [OF assms(1)]
  have "inv_owned ?s'"
  proof (rule inv_owned_step [OF c(1)])
    show "\<forall>item \<in> set (all_items ?s'). wf_item item"
      using c(1) by (simp add: inv_owned_def all_items_def)
  qed (simp_all add: owned_def)
  moreover have "inv_inflight ?s'" using c(2) by (simp add: inv_inflight_def)
  moreover have "inv_producer ?s'" using c(3) by (auto simp: inv_producer_def)
  ultimately show ?thesis by (simp add: inv_core_def)
qed

lemma core_add_waiter:
  assumes "inv_core s" and "frame_pids k = [p]" and "p < nextPid s" and "p \<notin> set (owned s)"
    and "promises s p = Pending"
    and "frame_before_producer k = [] \<or> producer_calls p (sent s) = 0"
  shows "inv_core (s\<lparr>waiters := waiters s @ [(g, k)]\<rparr>)" (is "inv_core ?s'")
proof -
  note c = inv_coreD [OF assms(1)]
  have "inv_owned ?s'"
    using c(1) assms(2-5) by (auto simp: inv_owned_def owned_def all_items_def)
  moreover have "inv_inflight ?s'" using c(2) by (simp add: inv_inflight_def)
  moreover have "set (frame_before_producer k) \<subseteq> set (frame_pids k)" by (cases k) simp_all
  then have "inv_producer ?s'" using c(3) assms(2,6) by (auto simp: inv_producer_def)
  ultimately show ?thesis by (simp add: inv_core_def)
qed

lemma core_add_inflight:
  assumes "inv_core s" and "xframe_pids k = [p]" and "p < nextPid s" and "p \<notin> set (owned s)"
    and "promises s p = Pending" and "xframe_items k = []"
    and "\<And>f q. c = Producer f q \<Longrightarrow> q = p \<and> producer_calls p (sent s) = 0"
  shows "inv_core (await_ext c k s)" (is "inv_core ?s'")
proof -
  note i = inv_coreD [OF assms(1)]
  have "inv_owned ?s'"
    using i(1) assms(2-6) by (auto simp: inv_owned_def owned_def all_items_def await_ext_def)
  moreover have "inv_inflight ?s'" using i(2) by (auto simp: inv_inflight_def await_ext_def)
  moreover have "set (before_producer (waiters s)) \<subseteq> set (owned s)"
  proof -
    have "\<And>ws. set (before_producer ws) \<subseteq> set (waiter_pids ws)"
    proof -
      fix ws show "set (before_producer ws) \<subseteq> set (waiter_pids ws)"
      proof (induction ws)
        case (Cons e ws)
        have "set (frame_before_producer (snd e)) \<subseteq> set (frame_pids (snd e))"
          by (cases "snd e") simp_all
        with Cons show ?case by auto
      qed simp
    qed
    then show ?thesis by (auto simp: owned_def)
  qed
  then have "inv_producer ?s'"
    using i(3) assms(3,4,7) by (cases c) (auto simp: inv_producer_def await_ext_def)
  ultimately show ?thesis by (simp add: inv_core_def)
qed

lemma core_heap_only:
  assumes "inv_core s" and "\<exists>h. s' = s\<lparr>promises := h\<rparr>"
    and "\<And>p. p \<in> set (owned s) \<or> nextPid s \<le> p \<Longrightarrow> promises s' p = promises s p"
  shows "inv_core s'"
proof -
  note c = inv_coreD [OF assms(1)]
  note f = heap_only_fields [OF assms(2)]
  have ow: "owned s' = owned s" and it: "all_items s' = all_items s"
    by (simp_all add: owned_def all_items_def f)
  have "inv_owned s'"
    using c(1) assms(3) by (simp add: inv_owned_def ow it f)
  moreover have "inv_inflight s'" using c(2) by (simp add: inv_inflight_def f)
  moreover have "inv_producer s'" using c(3) by (simp add: inv_producer_def f)
  ultimately show ?thesis by (simp add: inv_core_def)
qed

lemma core_settle:
  assumes "inv_core s" "p \<notin> set (owned s)" "p < nextPid s"
  shows "inv_core (settle p out s)"
  using assms(2,3) by (intro core_heap_only [OF assms(1)] settle_heap_only) (auto simp: promises_settle)

lemma core_rememberPromises [simp]:
  "inv_core (s\<lparr>rememberPromises := m\<rparr>) = inv_core s"
  by (simp add: inv_core_def inv_owned_def inv_inflight_def inv_producer_def owned_def all_items_def)

lemma core_rememberAllPromises [simp]:
  "inv_core (s\<lparr>rememberAllPromises := m\<rparr>) = inv_core s"
  by (simp add: inv_core_def inv_owned_def inv_inflight_def inv_producer_def owned_def all_items_def)

lemma owned_rememberPromises [simp]:
  "owned (s\<lparr>rememberPromises := m\<rparr>) = owned s" "owned (s\<lparr>rememberAllPromises := m\<rparr>) = owned s"
  by (simp_all add: owned_def)

lemma core_remember_finish:
  assumes "inv_core s" "p \<notin> set (owned s)" "p < nextPid s"
  shows "inv_core (remember_finish key p out s)"
  unfolding remember_finish_def using assms by (intro core_settle) simp_all

lemma core_rememberAll_finish:
  assumes "inv_core s" "p \<notin> set (owned s)" "p < nextPid s"
  shows "inv_core (rememberAll_finish prefix p out s)"
  unfolding rememberAll_finish_def using assms by (intro core_settle) simp_all

lemma before_producer_subset: "set (before_producer ws) \<subseteq> set (waiter_pids ws)"
proof (induction ws)
  case (Cons e ws)
  have "set (frame_before_producer (snd e)) \<subseteq> set (frame_pids (snd e))"
    by (cases "snd e") simp_all
  with Cons show ?case by auto
qed simp

lemma core_remove_waiter:
  assumes "inv_core s" and w: "waiters s = A @ (g, k) # B" and k: "frame_pids k = [p]"
  shows "inv_core (s\<lparr>waiters := A @ B\<rparr>)" (is "inv_core ?s'")
    and "p \<notin> set (owned (s\<lparr>waiters := A @ B\<rparr>))"
    and "p < nextPid s" and "promises s p = Pending"
    and "frame_before_producer k = [p] \<Longrightarrow> producer_calls p (sent s) = 0"
proof -
  note c = inv_coreD [OF assms(1)]
  have p: "p \<in> set (owned s)" by (simp add: owned_def w k)
  show "p < nextPid s" "promises s p = Pending"
    using owned_bound [OF assms(1) p] owned_pending [OF assms(1) p] by simp_all
  have d: "distinct (owned s)" using c(1) by (simp add: inv_owned_def)
  then show "p \<notin> set (owned ?s')" by (auto simp: owned_def w k)
  have "inv_owned ?s'"
  proof (rule inv_owned_step [OF c(1)])
    show "mset (owned ?s') \<subseteq># mset (owned s) + mset [nextPid s..<nextPid ?s']"
      by (simp add: owned_def w)
    show "\<forall>item \<in> set (all_items ?s'). wf_item item"
      using c(1) by (simp add: inv_owned_def all_items_def)
  qed simp_all
  moreover have "inv_inflight ?s'" using c(2) by (simp add: inv_inflight_def)
  moreover have "inv_producer ?s'" using c(3) by (auto simp: inv_producer_def w)
  ultimately show "inv_core ?s'" by (simp add: inv_core_def)
  show "producer_calls p (sent s) = 0" if "frame_before_producer k = [p]"
    using c(3) that by (simp add: inv_producer_def w)
qed

lemma core_remove_inflight:
  assumes "inv_core s" and x: "inflight s = A @ (x, k) # B"
  shows "inv_core (s\<lparr>inflight := A @ B\<rparr>)" (is "inv_core ?s'")
    and "set (xframe_pids k) \<inter> set (owned (s\<lparr>inflight := A @ B\<rparr>)) = {}"
    and "\<forall>p \<in> set (xframe_pids k). p < nextPid s \<and> promises s p = Pending"
    and "distinct (xframe_pids k)"
    and "\<forall>item \<in> set (xframe_items k). wf_item item"
proof -
  note c = inv_coreD [OF assms(1)]
  have p: "set (xframe_pids k) \<subseteq> set (owned s)" by (auto simp: owned_def x)
  show "\<forall>p \<in> set (xframe_pids k). p < nextPid s \<and> promises s p = Pending"
    using owned_bound [OF assms(1)] owned_pending [OF assms(1)] p by blast
  have d: "distinct (owned s)" using c(1) by (simp add: inv_owned_def)
  then show "set (xframe_pids k) \<inter> set (owned ?s') = {}" "distinct (xframe_pids k)"
    by (auto simp: owned_def x)
  show "\<forall>item \<in> set (xframe_items k). wf_item item"
    using c(1) by (simp add: inv_owned_def all_items_def x)
  have "inv_owned ?s'"
  proof (rule inv_owned_step [OF c(1)])
    show "mset (owned ?s') \<subseteq># mset (owned s) + mset [nextPid s..<nextPid ?s']"
      by (simp add: owned_def x)
    show "\<forall>item \<in> set (all_items ?s'). wf_item item"
      using c(1) by (auto simp: inv_owned_def all_items_def x)
  qed simp_all
  moreover have "inv_inflight ?s'" using c(2) by (simp add: inv_inflight_def x)
  moreover have "inv_producer ?s'" using c(3) by (auto simp: inv_producer_def)
  ultimately show "inv_core ?s'" by (simp add: inv_core_def)
qed

subsection \<open>The fan-out of a flush touches the promises of its batch only\<close>

lemma heap_only_refl: "\<exists>h. s = s\<lparr>promises := h\<rparr>"
  by (rule exI [of _ "promises s"]) simp

lemma deliver_result_heap_only: "\<exists>h. fst (deliver_result queue r i s) = s\<lparr>promises := h\<rparr>"
  by (auto simp: deliver_result_def heap_only_refl call_resolve_heap_only split: sum.splits)

lemma promises_deliver_result_other:
  assumes "i < length queue \<longrightarrow> q \<notin> set (handles (queue ! i))"
  shows "promises (fst (deliver_result queue r i s)) q = promises s q"
  using assms
  by (auto simp: deliver_result_def handles_def promises_call_resolve_other split: sum.splits)

lemma handles_subset: "i < length queue \<Longrightarrow> set (handles (queue ! i)) \<subseteq> set (queue_pids queue)"
proof
  fix x assume "i < length queue" "x \<in> set (handles (queue ! i))"
  moreover from this have "queue ! i \<in> set queue" by simp
  ultimately show "x \<in> set (queue_pids queue)"
    unfolding queue_pids_def set_concat by (metis UN_I image_eqI list.set_map)
qed

lemma forEach_results_heap_only: "\<exists>h. fst (forEach_results queue rs i s) = s\<lparr>promises := h\<rparr>"
proof (induction rs arbitrary: i s)
  case Nil
  show ?case by (simp add: heap_only_refl)
next
  case (Cons r rs)
  obtain s' e where d: "deliver_result queue r i s = (s', e)" by (cases "deliver_result queue r i s")
  with deliver_result_heap_only [of queue r i s] have 1: "\<exists>h. s' = s\<lparr>promises := h\<rparr>" by simp
  show ?case
  proof (cases e)
    case None
    with d have "fst (forEach_results queue (r # rs) i s) = fst (forEach_results queue rs (Suc i) s')"
      by simp
    with heap_only_trans [OF Cons [of "Suc i" s'] 1] show ?thesis by simp
  next
    case (Some a)
    with d 1 show ?thesis by simp
  qed
qed

lemma promises_forEach_results_other:
  assumes "q \<notin> set (queue_pids queue)"
  shows "promises (fst (forEach_results queue rs i s)) q = promises s q"
proof (induction rs arbitrary: i s)
  case Nil
  show ?case by simp
next
  case (Cons r rs)
  obtain s' e where d: "deliver_result queue r i s = (s', e)" by (cases "deliver_result queue r i s")
  have "promises (fst (deliver_result queue r i s)) q = promises s q"
    using assms handles_subset [of i queue] by (intro promises_deliver_result_other) auto
  with d have 1: "promises s' q = promises s q" by simp
  show ?case
    using d 1 Cons [of "Suc i" s'] by (cases e) simp_all
qed

lemma rejecter_pids_wf:
  "\<forall>item \<in> set queue. wf_item item \<Longrightarrow>
     concat (map (\<lambda>item. rejecter_pids (reject item)) queue) = queue_pids queue"
  by (induction queue) (simp_all add: wf_item_def handles_def)

lemma flushBatch_resume_cases:
  obtains (rejected) e where "flushBatch_resume queue outcome s = reject_all queue e s"
  | (delivered) rs where "outcome = Inr (JObj rs) \<or> True"
      "\<exists>rs. flushBatch_resume queue outcome s = fst (forEach_results queue rs 0 s)"
  | (thrown) e where
      "\<exists>rs. flushBatch_resume queue outcome s = reject_all queue e (fst (forEach_results queue rs 0 s))"
proof (cases outcome)
  case (Inl e)
  then show ?thesis by (intro rejected [of e]) (simp add: flushBatch_resume_def)
next
  case (Inr results)
  show ?thesis
  proof (cases "getProp results ''results''")
    case (Inl e)
    with Inr show ?thesis by (intro rejected [of e]) (simp add: flushBatch_resume_def)
  next
    case r: (Inr v)
    show ?thesis
    proof (cases "\<exists>rs. v = JArr rs")
      case False
      with Inr r show ?thesis
        by (intro rejected [of "typeError ''results.results.forEach is not a function''"])
          (cases v; simp add: flushBatch_resume_def)
    next
      case True
      then obtain rs where v: "v = JArr rs" by blast
      obtain s' e where f: "forEach_results queue rs 0 s = (s', e)"
        by (cases "forEach_results queue rs 0 s")
      show ?thesis
      proof (cases e)
        case None
        with Inr r v f have "flushBatch_resume queue outcome s = fst (forEach_results queue rs 0 s)"
          by (simp add: flushBatch_resume_def)
        then show ?thesis by (intro delivered) auto
      next
        case (Some a)
        with Inr r v f have
          "flushBatch_resume queue outcome s = reject_all queue a (fst (forEach_results queue rs 0 s))"
          by (simp add: flushBatch_resume_def)
        then show ?thesis by (intro thrown [of a]) auto
      qed
    qed
  qed
qed

lemma flushBatch_resume_heap_only: "\<exists>h. flushBatch_resume queue outcome s = s\<lparr>promises := h\<rparr>"
proof (cases rule: flushBatch_resume_cases [of queue outcome s])
  case (rejected e)
  then show ?thesis by (simp add: reject_all_heap_only)
next
  case (delivered rs)
  then show ?thesis using forEach_results_heap_only by auto
next
  case (thrown e)
  then obtain rs where
    "flushBatch_resume queue outcome s = reject_all queue e (fst (forEach_results queue rs 0 s))"
    by blast
  then show ?thesis
    using heap_only_trans [OF reject_all_heap_only forEach_results_heap_only] by simp
qed

lemma promises_flushBatch_resume_other:
  assumes "q \<notin> set (queue_pids queue)" "\<forall>item \<in> set queue. wf_item item"
  shows "promises (flushBatch_resume queue outcome s) q = promises s q"
proof -
  have r: "\<And>e s'. promises (reject_all queue e s') q = promises s' q"
    using assms by (simp add: promises_reject_all rejecter_pids_wf)
  note f = promises_forEach_results_other [OF assms(1)]
  show ?thesis
    by (cases rule: flushBatch_resume_cases [of queue outcome s]) (auto simp: r f)
qed

lemma core_flushBatch_resume:
  assumes "inv_core s" "set (queue_pids queue) \<inter> set (owned s) = {}"
    "\<forall>p \<in> set (queue_pids queue). p < nextPid s" "\<forall>item \<in> set queue. wf_item item"
  shows "inv_core (flushBatch_resume queue outcome s)"
proof (rule core_heap_only [OF assms(1) flushBatch_resume_heap_only])
  fix p assume "p \<in> set (owned s) \<or> nextPid s \<le> p"
  with assms(2,3) have "p \<notin> set (queue_pids queue)" by fastforce
  then show "promises (flushBatch_resume queue outcome s) p = promises s p"
    using assms(4) by (rule promises_flushBatch_resume_other)
qed

lemma core_flushBatch:
  assumes "inv_core s"
  shows "inv_core (flushBatch s)"
proof (cases "batchQueue s = []")
  case True
  then have "flushBatch s = s\<lparr>batchScheduled := False\<rparr>" by (simp add: flushBatch_def)
  moreover have "inv_core (s\<lparr>batchScheduled := False\<rparr>)"
    using assms
    by (simp add: inv_core_def inv_owned_def inv_inflight_def inv_producer_def owned_def all_items_def)
  ultimately show ?thesis by simp
next
  case False
  let ?s' = "s\<lparr>batchScheduled := False, batchQueue := [],
               inflight := inflight s @ [(length (sent s), FlushPost (batchQueue s))],
               sent := sent s @ [HttpPostBatch (map operation (batchQueue s))]\<rparr>"
  from False have e: "flushBatch s = ?s'" by (simp add: flushBatch_def prim_defs)
  note c = inv_coreD [OF assms(1)]
  have "inv_owned ?s'"
  proof (rule inv_owned_step [OF c(1)])
    show "mset (owned ?s') \<subseteq># mset (owned s) + mset [nextPid s..<nextPid ?s']"
      by (simp add: owned_def queue_pids_def)
    show "\<forall>item \<in> set (all_items ?s'). wf_item item"
      using c(1) by (auto simp: inv_owned_def all_items_def)
  qed simp_all
  moreover have "inv_inflight ?s'" using c(2) by (auto simp: inv_inflight_def)
  moreover have "inv_producer ?s'" using c(3) by (auto simp: inv_producer_def)
  ultimately show ?thesis by (simp add: inv_core_def e)
qed

subsection \<open>Continuations keep the invariant\<close>

lemma frame_pids_single: "\<exists>p. frame_pids k = [p]"
  by (cases k) simp_all

lemma core_set_then_wait:
  assumes c: "inv_core s" and p: "p \<notin> set (owned s)" "p < nextPid s" "promises s p = Pending"
    and k: "frame_pids k = [p]" "frame_before_producer k = []"
  shows "inv_core (let (g, s1) = set_op key v ttl s in await_promise g k s1)"
proof (rule set_op_effect [of key v ttl s])
  fix Q' B'
  let ?s1 = "s\<lparr>batchQueue := Q', batchScheduled := B', nextPid := Suc (nextPid s)\<rparr>"
  assume g: "set_op key v ttl s = (nextPid s, ?s1)"
    and m: "mset (queue_pids Q') = add_mset (nextPid s) (mset (queue_pids (batchQueue s)))"
    and w: "(\<forall>item \<in> set (batchQueue s). wf_item item) \<longrightarrow> (\<forall>item \<in> set Q'. wf_item item)"
  have 1: "inv_core ?s1" by (rule core_queue_step [OF c m w])
  from m have "set (queue_pids Q') = insert (nextPid s) (set (queue_pids (batchQueue s)))"
    by (metis set_mset_add_mset_insert set_mset_mset)
  with p have 2: "p \<notin> set (owned ?s1)" by (auto simp: owned_def)
  have "inv_core (?s1\<lparr>waiters := waiters ?s1 @ [(nextPid s, k)]\<rparr>)"
    using p k 2 by (intro core_add_waiter [OF 1]) simp_all
  with g show ?thesis by (simp add: await_promise_def)
qed

lemma resume_core:
  assumes c: "inv_core s" and k: "frame_pids k = [p]"
    and p: "p \<notin> set (owned s)" "p < nextPid s" "promises s p = Pending"
    and b: "frame_before_producer k = [p] \<Longrightarrow> producer_calls p (sent s) = 0"
  shows "inv_core (resume k out s)"
proof (cases out)
  case Pending
  with c show ?thesis by simp
next
  case (Rejected e)
  with c k p show ?thesis
    by (cases k) (simp_all add: core_remember_finish core_rememberAll_finish core_settle)
next
  case (Fulfilled v)
  show ?thesis
  proof (cases k)
    case (RememberGet key fallback ttl promise)
    with k have [simp]: "promise = p" by simp
    from RememberGet b have "producer_calls p (sent s) = 0" by simp
    then have "inv_core (await_ext (Producer fallback p) (RememberFallback key ttl p) s)"
      using p by (intro core_add_inflight [OF c]) simp_all
    with RememberGet Fulfilled c p show ?thesis
      by (simp add: core_remember_finish)
  next
    case (RememberAllExists prefix fallback getKey ttl l promise)
    with k have [simp]: "promise = p" by simp
    have "inv_core (await_ext (HttpGetScan prefix) (RememberAllScan prefix getKey p) s)"
      using p by (intro core_add_inflight [OF c]) simp_all
    moreover have "inv_core (await_ext (ListProducer fallback p)
        (RememberAllFallback prefix getKey ttl (Some l) p) s)"
      using p by (intro core_add_inflight [OF c]) simp_all
    ultimately show ?thesis using RememberAllExists Fulfilled by simp
  qed (use Fulfilled c k p in \<open>simp_all add: core_remember_finish core_rememberAll_finish core_settle\<close>)
qed

lemma resume_ext_core:
  assumes c: "inv_core s"
    and d: "set (xframe_pids k) \<inter> set (owned s) = {}"
    and p: "\<forall>p \<in> set (xframe_pids k). p < nextPid s \<and> promises s p = Pending"
    and w: "\<forall>item \<in> set (xframe_items k). wf_item item"
  shows "inv_core (resume_ext k out s)"
proof (cases k)
  case (FlushPost queue)
  with c d p w show ?thesis by (simp add: core_flushBatch_resume)
next
  case (RememberFallback key ttl promise)
  show ?thesis
  proof (cases out)
    case (Inl e)
    with RememberFallback c d p show ?thesis by (simp add: core_remember_finish)
  next
    case (Inr v)
    have "inv_core (let (g, s1) = set_op key v ttl s in await_promise g (RememberSet key v promise) s1)"
      using RememberFallback d p by (intro core_set_then_wait [OF c]) simp_all
    with RememberFallback Inr show ?thesis by simp
  qed
next
  case (RememberAllScan prefix getKey promise)
  with c d p show ?thesis
    by (cases out) (simp_all add: core_rememberAll_finish split: sum.splits)
next
  case (RememberAllFallback prefix getKey ttl listTTL promise)
  show ?thesis
  proof (cases out)
    case (Inl e)
    with RememberAllFallback c d p show ?thesis by (simp add: core_rememberAll_finish)
  next
    case (Inr fetched)
    have "inv_core (await_ext (HttpPostBatch operations)
            (RememberAllBatch prefix items getKey listTTL promise) s)" for items operations
      using RememberAllFallback d p by (intro core_add_inflight [OF c]) auto
    with RememberAllFallback Inr c d p show ?thesis
      by (cases fetched) (simp_all add: core_rememberAll_finish split: sum.splits)
  qed
next
  case (RememberAllBatch prefix items getKey listTTL promise)
  show ?thesis
  proof (cases out)
    case (Inl e)
    with RememberAllBatch c d p show ?thesis by (simp add: core_rememberAll_finish)
  next
    case (Inr response)
    have "inv_core (let (g, s1) = set_op (listMarkerKey prefix) (JBool True) (Some l) s
            in await_promise g (RememberAllSetMarker prefix items getKey promise) s1)" for l
      using RememberAllBatch d p by (intro core_set_then_wait [OF c]) auto
    with RememberAllBatch Inr c d p show ?thesis
      by (simp add: core_rememberAll_finish split: sum.splits option.splits)
  qed
qed

subsection \<open>Continuations keep the registry\<close>

lemma remember_live_heap_only:
  "\<exists>h. s' = s\<lparr>promises := h\<rparr> \<Longrightarrow> remember_live s' = remember_live s"
  by (auto simp: remember_live_def)

lemma registry_settle [simp]:
  "inv_registry (settle p out s) = inv_registry s"
  by (simp add: inv_registry_def remember_live_heap_only [OF settle_heap_only])

lemma registry_rememberAll_finish [simp]:
  "inv_registry (rememberAll_finish prefix p out s) = inv_registry s"
  by (simp add: rememberAll_finish_def) (simp add: inv_registry_def remember_live_def)

lemma registry_remember_finish:
  assumes "registry_ok (rememberPromises s) ((key, p) # remember_live s)"
  shows "inv_registry (remember_finish key p out s)"
proof -
  have "registry_ok ((rememberPromises s)(key := None)) (remember_live s)"
    by (rule registry_ok_del [OF assms]) simp
  then show ?thesis
    by (simp add: remember_finish_def) (simp add: inv_registry_def remember_live_def)
qed

lemma registry_await_ext:
  assumes "registry_ok (rememberPromises s) (xframe_key k @ remember_live s)"
  shows "inv_registry (await_ext c k s)"
proof -
  have "registry_ok (rememberPromises s) (remember_live s @ xframe_key k)"
    by (rule registry_ok_same [OF assms]) simp
  then show ?thesis by (simp add: inv_registry_def remember_live_def await_ext_def)
qed

lemma registry_set_then_wait:
  assumes "registry_ok (rememberPromises s) (frame_key k @ remember_live s)"
  shows "inv_registry (let (g, s1) = set_op key v ttl s in await_promise g k s1)"
proof (rule set_op_effect [of key v ttl s])
  fix Q' B'
  assume g: "set_op key v ttl s =
    (nextPid s, s\<lparr>batchQueue := Q', batchScheduled := B', nextPid := Suc (nextPid s)\<rparr>)"
  have "registry_ok (rememberPromises s)
          (waiter_keys (waiters s) @ frame_key k @ inflight_keys (inflight s))"
    by (rule registry_ok_same [OF assms]) (simp add: remember_live_def)
  with g show ?thesis
    by (simp add: inv_registry_def remember_live_def await_promise_def)
qed

lemma resume_registry:
  assumes "registry_ok (rememberPromises s) (frame_key k @ remember_live s)" "out \<noteq> Pending"
  shows "inv_registry (resume k out s)"
proof (cases k)
  case (RememberGet key fallback ttl promise)
  with assms show ?thesis
    by (cases out) (simp_all add: registry_remember_finish registry_await_ext)
next
  case (RememberSet key v promise)
  with assms show ?thesis
    by (cases out) (simp_all add: registry_remember_finish)
next
  case (ExistsGet promise)
  with assms have "inv_registry s" by (simp add: inv_registry_def)
  with ExistsGet assms(2) show ?thesis by (cases out) simp_all
next
  case (RememberAllExists prefix fallback getKey ttl l promise)
  with assms have "inv_registry s" by (simp add: inv_registry_def)
  with RememberAllExists assms show ?thesis
    by (cases out) (simp_all add: registry_await_ext)
next
  case (RememberAllSetMarker prefix items getKey promise)
  with assms have "inv_registry s" by (simp add: inv_registry_def)
  with RememberAllSetMarker assms(2) show ?thesis by (cases out) simp_all
qed

lemma registry_flushBatch_resume [simp]:
  "inv_registry (flushBatch_resume queue outcome s) = inv_registry s"
  using heap_only_fields [OF flushBatch_resume_heap_only, of queue outcome s]
  by (simp add: inv_registry_def remember_live_def)

lemma resume_ext_registry:
  assumes "registry_ok (rememberPromises s) (xframe_key k @ remember_live s)"
  shows "inv_registry (resume_ext k out s)"
proof (cases k)
  case (FlushPost queue)
  with assms have "inv_registry s" by (simp add: inv_registry_def)
  with FlushPost show ?thesis by simp
next
  case (RememberFallback key ttl promise)
  show ?thesis
  proof (cases out)
    case (Inl e)
    with RememberFallback assms show ?thesis by (simp add: registry_remember_finish)
  next
    case (Inr v)
    have "inv_registry (let (g, s1) = set_op key v ttl s
            in await_promise g (RememberSet key v promise) s1)"
      using RememberFallback assms by (intro registry_set_then_wait) simp
    with RememberFallback Inr show ?thesis by simp
  qed
next
  case (RememberAllScan prefix getKey promise)
  with assms have "inv_registry s" by (simp add: inv_registry_def)
  with RememberAllScan show ?thesis
    by (cases out) (simp_all split: sum.splits)
next
  case (RememberAllFallback prefix getKey ttl listTTL promise)
  with assms have r: "inv_registry s" by (simp add: inv_registry_def)
  show ?thesis
  proof (cases out)
    case (Inl e)
    with RememberAllFallback r show ?thesis by simp
  next
    case (Inr fetched)
    with RememberAllFallback assms r show ?thesis
      by (cases fetched) (simp_all add: registry_await_ext split: sum.splits)
  qed
next
  case (RememberAllBatch prefix items getKey listTTL promise)
  with assms have r: "inv_registry s" by (simp add: inv_registry_def)
  have "inv_registry (let (g, s1) = set_op (listMarkerKey prefix) (JBool True) (Some l) s
          in await_promise g (RememberAllSetMarker prefix items getKey promise) s1)" for l
    using RememberAllBatch assms by (intro registry_set_then_wait) simp
  with RememberAllBatch r show ?thesis
    by (cases out) (simp_all split: sum.splits option.splits)
qed

subsection \<open>Every event keeps the invariant\<close>

lemma inv_init: "inv init"
  by (simp add: inv_def inv_core_def inv_owned_def inv_inflight_def inv_registry_def
      registry_ok_def inv_producer_def init_def owned_def all_items_def remember_live_def)

lemma inv_queue_call:
  assumes "inv s"
    and "f = (nextPid s, s\<lparr>batchQueue := Q', batchScheduled := B', nextPid := Suc (nextPid s)\<rparr>)"
    and "mset (queue_pids Q') = add_mset (nextPid s) (mset (queue_pids (batchQueue s)))"
    and "(\<forall>item \<in> set (batchQueue s). wf_item item) \<longrightarrow> (\<forall>item \<in> set Q'. wf_item item)"
  shows "inv (snd f)"
  using assms core_queue_step [of s Q' B']
  by (simp add: inv_def) (simp add: inv_registry_def remember_live_def)

lemma inv_set_op: "inv s \<Longrightarrow> inv (snd (set_op k v t s))"
  by (rule set_op_effect [of k v t s]) (rule inv_queue_call)

lemma inv_delete_op: "inv s \<Longrightarrow> inv (snd (delete_op k s))"
  by (rule delete_op_effect [of k s]) (rule inv_queue_call)

lemma inv_get_op: "inv s \<Longrightarrow> inv (snd (get_op k s))"
  by (rule get_op_effect [of k s]) (rule inv_queue_call)

lemma get_op_facts:
  assumes "inv s"
  shows "fst (get_op k s) = nextPid s" "nextPid (snd (get_op k s)) = Suc (nextPid s)"
    "promises (snd (get_op k s)) = promises s" "sent (snd (get_op k s)) = sent s"
    "waiters (snd (get_op k s)) = waiters s" "inflight (snd (get_op k s)) = inflight s"
    "rememberPromises (snd (get_op k s)) = rememberPromises s"
    "rememberAllPromises (snd (get_op k s)) = rememberAllPromises s"
    "set (owned (snd (get_op k s))) = insert (nextPid s) (set (owned s))"
proof -
  show "fst (get_op k s) = nextPid s" "nextPid (snd (get_op k s)) = Suc (nextPid s)"
    "promises (snd (get_op k s)) = promises s" "sent (snd (get_op k s)) = sent s"
    "waiters (snd (get_op k s)) = waiters s" "inflight (snd (get_op k s)) = inflight s"
    "rememberPromises (snd (get_op k s)) = rememberPromises s"
    "rememberAllPromises (snd (get_op k s)) = rememberAllPromises s"
    by (rule get_op_effect [of k s], simp)+
  show "set (owned (snd (get_op k s))) = insert (nextPid s) (set (owned s))"
  proof (rule get_op_effect [of k s])
    fix Q' B'
    assume g: "get_op k s = (nextPid s, s\<lparr>batchQueue := Q', batchScheduled := B', nextPid := Suc (nextPid s)\<rparr>)"
      and m: "mset (queue_pids Q') = add_mset (nextPid s) (mset (queue_pids (batchQueue s)))"
    from m have "set (queue_pids Q') = insert (nextPid s) (set (queue_pids (batchQueue s)))"
      by (metis set_mset_add_mset_insert set_mset_mset)
    with g show ?thesis by (simp add: owned_def)
  qed
qed

lemma inv_add_plain_waiter:
  assumes "inv s" and "frame_pids k = [p]" and "p < nextPid s" and "p \<notin> set (owned s)"
    and "promises s p = Pending" and "frame_key k = []" and "frame_before_producer k = []"
  shows "inv (await_promise g k s)"
  using assms core_add_waiter [of s k p g]
  by (simp add: inv_def await_promise_def) (simp add: inv_registry_def remember_live_def)

lemma inv_new_promise:
  assumes "inv s" shows "inv (snd (new_promise s))"
  using assms core_alloc [of s]
  by (simp add: inv_def new_promise_def) (simp add: inv_registry_def remember_live_def)

lemma inv_rememberAllPromises [simp]: "inv (s\<lparr>rememberAllPromises := m\<rparr>) = inv s"
  by (simp add: inv_def) (simp add: inv_registry_def remember_live_def)

lemma owned_new_promise [simp]: "owned (snd (new_promise s)) = owned s"
  by (simp add: new_promise_def owned_def)

lemma inv_exists_op:
  assumes "inv s" shows "inv (snd (exists_op k s))"
proof -
  let ?s1 = "snd (get_op k s)"
  let ?s2 = "snd (new_promise ?s1)"
  note g = get_op_facts [OF assms, of k]
  have 1: "inv ?s1" by (rule inv_get_op [OF assms])
  have 2: "inv ?s2" by (rule inv_new_promise [OF 1])
  from 1 have c1: "inv_core ?s1" by (simp add: inv_def)
  have "inv (await_promise (nextPid s) (ExistsGet (Suc (nextPid s))) ?s2)"
  proof (rule inv_add_plain_waiter [OF 2])
    show "Suc (nextPid s) \<notin> set (owned ?s2)"
      using fresh_not_owned [OF c1, of "Suc (nextPid s)"] g(2) by simp
    show "promises ?s2 (Suc (nextPid s)) = Pending"
      using fresh_pending [OF c1, of "Suc (nextPid s)"] g by (simp add: new_promise_def)
  qed (simp_all add: g new_promise_def)
  moreover have "snd (exists_op k s) = await_promise (nextPid s) (ExistsGet (Suc (nextPid s))) ?s2"
    using g(1,2) by (simp add: exists_op_def new_promise_def case_prod_beta Let_def)
  ultimately show ?thesis by simp
qed

lemma inv_remember:
  assumes "inv s" shows "inv (snd (remember key fallback ttl s))"
proof (cases "rememberPromises s key")
  case (Some found)
  with assms show ?thesis by (simp add: remember_def)
next
  case None
  let ?p = "nextPid s"
  let ?s1 = "snd (new_promise s)"
  let ?s2 = "snd (get_op key ?s1)"
  let ?k = "RememberGet key fallback ttl ?p"
  let ?s3 = "await_promise (Suc ?p) ?k ?s2"
  have 1: "inv ?s1" by (rule inv_new_promise [OF assms])
  note g = get_op_facts [OF 1, of key]
  have n1: "nextPid ?s1 = Suc ?p" "promises ?s1 = promises s" "sent ?s1 = sent s"
    "waiters ?s1 = waiters s" "inflight ?s1 = inflight s" "rememberPromises ?s1 = rememberPromises s"
    by (simp_all add: new_promise_def)
  have 2: "inv ?s2" by (rule inv_get_op [OF 1])
  from assms 2 have c: "inv_core s" and c2: "inv_core ?s2" and r: "inv_registry s"
    by (simp_all add: inv_def)
  have e: "snd (remember key fallback ttl s) =
      ?s3\<lparr>rememberPromises := (rememberPromises ?s3)(key \<mapsto> ?p)\<rparr>"
    using None g(1) n1(1) by (simp add: remember_def new_promise_def case_prod_beta Let_def)
  have "inv_core (?s2\<lparr>waiters := waiters ?s2 @ [(Suc ?p, ?k)]\<rparr>)"
  proof (rule core_add_waiter [OF c2])
    show "?p \<notin> set (owned ?s2)"
      using fresh_not_owned [OF c, of ?p] by (simp add: g n1)
    show "promises ?s2 ?p = Pending"
      using fresh_pending [OF c, of ?p] by (simp add: g n1)
    show "frame_before_producer ?k = [] \<or> producer_calls ?p (sent ?s2) = 0"
      using fresh_not_called [OF c, of ?p] by (simp add: g n1)
  qed (simp_all add: g n1)
  then have "inv_core ?s3" by (simp add: await_promise_def)
  then have core: "inv_core (snd (remember key fallback ttl s))" by (simp add: e)
  have "registry_ok ((rememberPromises s)(key \<mapsto> ?p))
          (waiter_keys (waiters s) @ [(key, ?p)] @ inflight_keys (inflight s))"
    using r None by (intro registry_ok_add [of _ "remember_live s"])
      (simp_all add: inv_registry_def remember_live_def)
  then have "inv_registry (snd (remember key fallback ttl s))"
    by (simp add: e inv_registry_def remember_live_def await_promise_def g n1)
  with core show ?thesis by (simp add: inv_def)
qed

lemma inv_add_plain_inflight:
  assumes "inv s" and "xframe_pids k = [p]" and "p < nextPid s" and "p \<notin> set (owned s)"
    and "promises s p = Pending" and "xframe_items k = []" and "xframe_key k = []"
    and "\<And>f q. c \<noteq> Producer f q"
  shows "inv (await_ext c k s)"
proof -
  from assms(1) have c: "inv_core s" and r: "inv_registry s" by (simp_all add: inv_def)
  have "inv_core (await_ext c k s)"
    using assms(2-6,8) by (intro core_add_inflight [OF c]) auto
  moreover have "inv_registry (await_ext c k s)"
    using r assms(7) by (intro registry_await_ext) (simp add: inv_registry_def)
  ultimately show ?thesis by (simp add: inv_def)
qed

lemma nextPid_exists_op: "inv s \<Longrightarrow> nextPid (snd (exists_op k s)) = Suc (Suc (nextPid s))"
  using get_op_facts(2) [of s k]
  by (simp add: exists_op_def new_promise_def await_promise_def case_prod_beta Let_def)

lemma exists_op_facts:
  assumes "inv s"
  shows "fst (exists_op k s) = Suc (nextPid s)"
    "promises (snd (exists_op k s)) = promises s"
    "set (owned (snd (exists_op k s))) = {nextPid s, Suc (nextPid s)} \<union> set (owned s)"
  using get_op_facts [OF assms, of k]
  by (auto simp: exists_op_def new_promise_def await_promise_def case_prod_beta Let_def owned_def)

lemma inv_rememberAll:
  assumes "inv s" shows "inv (snd (rememberAll prefix fallback getKey ttl listTTL s))"
proof (cases "rememberAllPromises s prefix")
  case (Some found)
  with assms show ?thesis by (simp add: rememberAll_def)
next
  case None
  let ?p = "nextPid s"
  let ?s1 = "snd (new_promise s)"
  have 1: "inv ?s1" by (rule inv_new_promise [OF assms])
  from assms have c: "inv_core s" by (simp add: inv_def)
  have n1: "nextPid ?s1 = Suc ?p" "promises ?s1 = promises s"
    by (simp_all add: new_promise_def)
  show ?thesis
  proof (cases listTTL)
    case N: None
    have "inv (await_ext (ListProducer fallback ?p) (RememberAllFallback prefix getKey ttl None ?p) ?s1)"
    proof (rule inv_add_plain_inflight [OF 1])
      show "?p \<notin> set (owned ?s1)" using fresh_not_owned [OF c, of ?p] by simp
      show "promises ?s1 ?p = Pending" using fresh_pending [OF c, of ?p] by (simp add: n1)
    qed (simp_all add: n1)
    with None N show ?thesis
      by (simp add: rememberAll_def new_promise_def case_prod_beta Let_def)
  next
    case (Some l)
    let ?s2 = "snd (exists_op (listMarkerKey prefix) ?s1)"
    let ?k = "RememberAllExists prefix fallback getKey ttl l ?p"
    have 2: "inv ?s2" by (rule inv_exists_op [OF 1])
    note x = exists_op_facts [OF 1, of "listMarkerKey prefix"] nextPid_exists_op [OF 1, of "listMarkerKey prefix"]
    have "inv (await_promise (fst (exists_op (listMarkerKey prefix) ?s1)) ?k ?s2)"
    proof (rule inv_add_plain_waiter [OF 2])
      show "?p \<notin> set (owned ?s2)"
        using fresh_not_owned [OF c, of ?p] by (simp add: x n1)
      show "promises ?s2 ?p = Pending"
        using fresh_pending [OF c, of ?p] by (simp add: x n1)
    qed (simp_all add: x n1)
    with None Some show ?thesis
      by (simp add: rememberAll_def new_promise_def case_prod_beta Let_def)
  qed
qed

lemma inv_flushBatch:
  assumes "inv s" shows "inv (flushBatch s)"
proof -
  from assms have "inv_core s" "inv_registry s" by (simp_all add: inv_def)
  then have "inv_core (flushBatch s)" "inv_registry (flushBatch s)"
    by (simp_all add: core_flushBatch)
      (simp add: flushBatch_def inv_registry_def remember_live_def prim_defs)
  then show ?thesis by (simp add: inv_def)
qed

lemma nth_splitE:
  assumes "i < length ws"
  obtains A B where "ws = A @ ws ! i # B" "remove_nth i ws = A @ B"
  using assms waiters_split [of i ws] by blast

lemma inv_run_waiter:
  assumes "inv s" shows "inv (run_waiter i s)"
proof (cases "i < length (waiters s) \<and> promises s (fst (waiters s ! i)) \<noteq> Pending")
  case False
  have "run_waiter i s = s"
  proof (cases "i < length (waiters s)")
    case True
    with False have "promises s (fst (waiters s ! i)) = Pending" by simp
    with True show ?thesis by (simp add: run_waiter_def case_prod_beta)
  next
    case False
    then show ?thesis by (simp add: run_waiter_def)
  qed
  with assms show ?thesis by simp
next
  case True
  obtain g k where gk: "waiters s ! i = (g, k)" by (cases "waiters s ! i")
  from True have "i < length (waiters s)" by simp
  then obtain A B where w0: "waiters s = A @ waiters s ! i # B"
    and rn: "remove_nth i (waiters s) = A @ B" by (rule nth_splitE)
  let ?s0 = "s\<lparr>waiters := A @ B\<rparr>"
  have w: "waiters s = A @ (g, k) # B" using w0 unfolding gk .
  from True gk have out: "promises s g \<noteq> Pending" by simp
  from True gk rn have e: "run_waiter i s = resume k (promises s g) ?s0"
    by (simp add: run_waiter_def)
  obtain p where k: "frame_pids k = [p]" using frame_pids_single by blast
  from assms have c: "inv_core s" and r: "inv_registry s" by (simp_all add: inv_def)
  note rm = core_remove_waiter [OF c w k]
  have "inv_core (resume k (promises s g) ?s0)"
  proof (rule resume_core [where p = p])
    show "inv_core ?s0" by (rule rm(1))
    show "frame_pids k = [p]" by (rule k)
    show "p \<notin> set (owned ?s0)" by (rule rm(2))
    show "p < nextPid ?s0" using rm(3) by simp
    show "promises ?s0 p = Pending" using rm(4) by simp
    show "producer_calls p (sent ?s0) = 0" if "frame_before_producer k = [p]"
      using rm(5) [OF that] by simp
  qed
  moreover have "mset (frame_key k @ remember_live ?s0) = mset (remember_live s)"
    by (simp add: remember_live_def w)
  with r have "registry_ok (rememberPromises ?s0) (frame_key k @ remember_live ?s0)"
    unfolding inv_registry_def using registry_ok_same by fastforce
  then have "inv_registry (resume k (promises s g) ?s0)"
    using out by (rule resume_registry)
  ultimately show ?thesis by (simp add: inv_def e)
qed

lemma inv_arrive:
  assumes "inv s" shows "inv (arrive x out s)"
proof (cases "map_of (inflight s) x")
  case None
  with assms show ?thesis by (simp add: arrive_def)
next
  case (Some k)
  from assms have c: "inv_core s" and r: "inv_registry s" by (simp_all add: inv_def)
  from c have "distinct (map fst (inflight s))" by (simp add: inv_core_def inv_inflight_def)
  from inflight_split [OF this Some] obtain A B where
    x: "inflight s = A @ (x, k) # B" and f: "filter (\<lambda>(y, k'). y \<noteq> x) (inflight s) = A @ B"
    by blast
  let ?s0 = "s\<lparr>inflight := A @ B\<rparr>"
  from Some f have e: "arrive x out s = resume_ext k out ?s0" by (simp add: arrive_def)
  note rm = core_remove_inflight [OF c x]
  have "inv_core (resume_ext k out ?s0)"
  proof (rule resume_ext_core)
    show "inv_core ?s0" by (rule rm(1))
    show "set (xframe_pids k) \<inter> set (owned ?s0) = {}" by (rule rm(2))
    show "\<forall>p \<in> set (xframe_pids k). p < nextPid ?s0 \<and> promises ?s0 p = Pending"
      using rm(3) by simp
    show "\<forall>item \<in> set (xframe_items k). wf_item item" by (rule rm(5))
  qed
  moreover have "mset (xframe_key k @ remember_live ?s0) = mset (remember_live s)"
    by (simp add: remember_live_def x)
  with r have "registry_ok (rememberPromises ?s0) (xframe_key k @ remember_live ?s0)"
    unfolding inv_registry_def using registry_ok_same by fastforce
  then have "inv_registry (resume_ext k out ?s0)" by (rule resume_ext_registry)
  ultimately show ?thesis by (simp add: inv_def e)
qed

lemma inv_exec:
  assumes "inv s" shows "inv (exec e s)"
  using assms
  by (cases e)
    (simp_all add: inv_set_op inv_get_op inv_delete_op inv_exists_op inv_remember
      inv_rememberAll inv_flushBatch inv_run_waiter inv_arrive)

lemma inv_run: "inv s \<Longrightarrow> inv (run es s)"
  unfolding run_def by (induction es arbitrary: s) (simp_all add: inv_exec)

lemma inv_reachable: "inv (run es init)"
  by (rule inv_run [OF inv_init])

section \<open>What an arriving outcome and a resumed continuation find\<close>

lemma core_reachable: "inv_core (run es init)"
  using inv_reachable [of es] by (simp add: inv_def)

lemma arrive_shape:
  assumes "inv_core s" "map_of (inflight s) x = Some k"
  obtains A B where "inflight s = A @ (x, k) # B"
    "arrive x out s = resume_ext k out (s\<lparr>inflight := A @ B\<rparr>)"
proof -
  from assms(1) have "distinct (map fst (inflight s))" by (simp add: inv_core_def inv_inflight_def)
  from inflight_split [OF this assms(2)] obtain A B where
    x: "inflight s = A @ (x, k) # B" and f: "filter (\<lambda>(y, k'). y \<noteq> x) (inflight s) = A @ B"
    by blast
  from assms(2) f have "arrive x out s = resume_ext k out (s\<lparr>inflight := A @ B\<rparr>)"
    by (simp add: arrive_def)
  with x show ?thesis by (rule that)
qed

lemma run_waiter_shape:
  assumes "i < length (waiters s)" "waiters s ! i = (g, k)" "promises s g \<noteq> Pending"
  obtains A B where "waiters s = A @ (g, k) # B"
    "run_waiter i s = resume k (promises s g) (s\<lparr>waiters := A @ B\<rparr>)"
proof -
  from assms(1) obtain A B where w0: "waiters s = A @ waiters s ! i # B"
    and rn: "remove_nth i (waiters s) = A @ B" by (rule nth_splitE)
  have w: "waiters s = A @ (g, k) # B" using w0 unfolding assms(2) .
  from assms rn have "run_waiter i s = resume k (promises s g) (s\<lparr>waiters := A @ B\<rparr>)"
    by (simp add: run_waiter_def)
  with w show ?thesis by (rule that)
qed

text \<open>The batch in flight: its handles are pending, distinct and paired.\<close>

lemma flush_in_flight:
  assumes "inv_core s" "map_of (inflight s) x = Some (FlushPost queue)"
  shows "distinct (queue_pids queue)"
    and "\<forall>p \<in> set (queue_pids queue). promises s p = Pending"
    and "\<forall>item \<in> set queue. wf_item item"
    and "set (queue_pids queue) \<inter> set (queue_pids (batchQueue s)) = {}"
    and "\<exists>s0. arrive x out s = flushBatch_resume queue out s0 \<and> promises s0 = promises s
           \<and> batchQueue s0 = batchQueue s \<and> batchScheduled s0 = batchScheduled s"
proof -
  obtain A B where x: "inflight s = A @ (x, FlushPost queue) # B"
    and a: "arrive x out s = resume_ext (FlushPost queue) out (s\<lparr>inflight := A @ B\<rparr>)"
    by (rule arrive_shape [OF assms])
  note rm = core_remove_inflight [OF assms(1) x]
  from rm(4) show "distinct (queue_pids queue)" by simp
  from rm(3) show "\<forall>p \<in> set (queue_pids queue). promises s p = Pending" by simp
  from rm(5) show "\<forall>item \<in> set queue. wf_item item" by simp
  from rm(2) show "set (queue_pids queue) \<inter> set (queue_pids (batchQueue s)) = {}"
    by (auto simp: owned_def)
  from a show "\<exists>s0. arrive x out s = flushBatch_resume queue out s0 \<and> promises s0 = promises s
           \<and> batchQueue s0 = batchQueue s \<and> batchScheduled s0 = batchScheduled s"
    by (intro exI [of _ "s\<lparr>inflight := A @ B\<rparr>"]) simp
qed

lemma flush_failure_rejects:
  assumes "inv_core s" "map_of (inflight s) x = Some (FlushPost queue)"
  shows "promises (arrive x (Inl e) s) p =
           (if p \<in> set (queue_pids queue) then Rejected e else promises s p)"
    and "batchQueue (arrive x (Inl e) s) = batchQueue s"
    and "batchScheduled (arrive x (Inl e) s) = batchScheduled s"
proof -
  note f = flush_in_flight(1-4) [OF assms]
  from flush_in_flight(5) [OF assms, of "Inl e"] obtain s0 where a: "arrive x (Inl e) s = flushBatch_resume queue (Inl e) s0"
    and s0: "promises s0 = promises s" "batchQueue s0 = batchQueue s"
      "batchScheduled s0 = batchScheduled s" by blast
  have r: "flushBatch_resume queue (Inl e) s0 = reject_all queue e s0"
    by (simp add: flushBatch_resume_def)
  show "promises (arrive x (Inl e) s) p =
           (if p \<in> set (queue_pids queue) then Rejected e else promises s p)"
    using f(2,3) by (simp add: a r promises_reject_all rejecter_pids_wf s0)
  show "batchQueue (arrive x (Inl e) s) = batchQueue s"
    "batchScheduled (arrive x (Inl e) s) = batchScheduled s"
    by (simp_all add: a r s0)
qed

section \<open>Transport failures and retries\<close>

lemmas eval_defs = run_def get_op_def set_op_def delete_op_def exists_op_def remember_def
  rememberAll_def new_promise_def enqueue_def scheduleBatch_def await_ext_def await_promise_def
  flushBatch_def flushBatch_resume_def deliver_result_def run_waiter_def arrive_def
  remove_nth_def remember_finish_def rememberAll_finish_def settle_def is_get_for_def init_def
  Let_def batch_response_def get_result_def set_result_def
  delete_result_def error_result_def miss_read_def hit_read_def miss_produce_def
  miss_write_def computation_failed_def concurrent_hit_def failing_producer_then_read_def
  user_id_def user_id_string_def decimal_def rememberAll_with_server_def alice_def bob_def
  strict_scan_def strict_produce_def carol_def alicia_def typeError_def marker_present_def marker_absent_def list_produce_def
  list_cache_def list_mark_def list_marked_def list_scan_def users_table_def listMarkerKey_def
  rememberAll_result_def itemMap_def digits.simps scan_items_def store_scan_def
  store_batch_def store_put_def starts_with_def

text \<open>
  Claim C5. When the exchange of a batch fails in transport, whatever the error, every
  completion handle of the batch's snapshot (the first caller's and every collapsed
  caller's) is rejected with that error; the queue that collects the next cycle, its
  scheduling flag and every other promise, so every handle enqueued for the next cycle,
  are left as they were. This holds in every state a run of the client can reach.
\<close>

theorem transport_failure_rejects_snapshot:
  assumes "map_of (inflight (run es init)) x = Some (FlushPost queue)"
  shows "(\<forall>p \<in> set (queue_pids queue).
            promises (exec (Arrive x (Inl e)) (run es init)) p = Rejected e)
       \<and> (\<forall>p. p \<notin> set (queue_pids queue) \<longrightarrow>
            promises (exec (Arrive x (Inl e)) (run es init)) p = promises (run es init) p)
       \<and> batchQueue (exec (Arrive x (Inl e)) (run es init)) = batchQueue (run es init)
       \<and> batchScheduled (exec (Arrive x (Inl e)) (run es init)) = batchScheduled (run es init)
       \<and> set (queue_pids queue) \<inter> set (queue_pids (batchQueue (run es init))) = {}"
  using flush_failure_rejects [OF core_reachable assms] flush_in_flight(4) [OF core_reachable assms]
  by simp

theorem transport_failure_rejects_snapshot_witness:
  "map_of (inflight (run [CallGet ''a'', CallSet ''b'' (JNum 1) None, CallGet ''a'', Microtask,
                          CallGet ''c''] init)) 0
     = Some (FlushPost
         [\<lparr>operation = OpGet ''a'', resolve = ResolveBoth (ResolveNullConv 0) 2,
           reject = RejectBoth (Reject 0) 2\<rparr>,
          \<lparr>operation = OpSet ''b'' (JNum 1) None, resolve = Resolve 1, reject = Reject 1\<rparr>])
   \<and> promises (exec (Arrive 0 (Inl (LixTimeoutError (Num 5000))))
         (run [CallGet ''a'', CallSet ''b'' (JNum 1) None, CallGet ''a'', Microtask,
               CallGet ''c''] init)) 2 = Rejected (LixTimeoutError (Num 5000))
   \<and> promises (exec (Arrive 0 (Inl (LixTimeoutError (Num 5000))))
         (run [CallGet ''a'', CallSet ''b'' (JNum 1) None, CallGet ''a'', Microtask,
               CallGet ''c''] init)) 3 = Pending
   \<and> map operation (batchQueue (exec (Arrive 0 (Inl (LixTimeoutError (Num 5000))))
         (run [CallGet ''a'', CallSet ''b'' (JNum 1) None, CallGet ''a'', Microtask,
               CallGet ''c''] init))) = [OpGet ''c'']"
proof -
  have q: "map_of (inflight (run [CallGet ''a'', CallSet ''b'' (JNum 1) None, CallGet ''a'',
                                  Microtask, CallGet ''c''] init)) 0
     = Some (FlushPost
         [\<lparr>operation = OpGet ''a'', resolve = ResolveBoth (ResolveNullConv 0) 2,
           reject = RejectBoth (Reject 0) 2\<rparr>,
          \<lparr>operation = OpSet ''b'' (JNum 1) None, resolve = Resolve 1, reject = Reject 1\<rparr>])"
    by (simp add: eval_defs)
  have b: "map operation (batchQueue (run [CallGet ''a'', CallSet ''b'' (JNum 1) None,
              CallGet ''a'', Microtask, CallGet ''c''] init)) = [OpGet ''c'']"
    and p: "promises (run [CallGet ''a'', CallSet ''b'' (JNum 1) None,
              CallGet ''a'', Microtask, CallGet ''c''] init) 3 = Pending"
    by (simp_all add: eval_defs)
  from transport_failure_rejects_snapshot [OF q, of "LixTimeoutError (Num 5000)"] q b p
  show ?thesis by (simp add: handles_def)
qed

section \<open>Collapsed reads\<close>

text \<open>
  However many reads of a key are issued in a cycle, the queue holds at most one read of
  that key, and after a read of it exactly one.
\<close>

lemma one_read_per_key:
  assumes "count_list (map operation (batchQueue s)) (OpGet k) \<le> 1"
  shows "count_list (map operation (batchQueue (snd (get_op k' s)))) (OpGet k) \<le> 1"
    and "count_list (map operation (batchQueue (snd (get_op k s)))) (OpGet k) = 1"
proof -
  let ?ops = "map operation (batchQueue s)"
  have i: "OpGet k \<in> operation ` set (batchQueue s) \<longleftrightarrow> count_list ?ops (OpGet k) \<noteq> 0" for k
    by (simp add: count_list_0_iff)
  have eq: "count_list (map operation (batchQueue (snd (get_op k s)))) (OpGet k) = 1"
  proof (rule get_op_effect [of k s])
    fix Q' B'
    assume g: "get_op k s = (nextPid s, s\<lparr>batchQueue := Q', batchScheduled := B', nextPid := Suc (nextPid s)\<rparr>)"
      and m: "map operation Q' = ?ops @
                (if OpGet k \<in> operation ` set (batchQueue s) then [] else [OpGet k])"
    show ?thesis
      using assms i [of k] by (simp add: g m)
  qed
  then show "count_list (map operation (batchQueue (snd (get_op k s)))) (OpGet k) = 1" .
  show "count_list (map operation (batchQueue (snd (get_op k' s)))) (OpGet k) \<le> 1"
  proof (cases "k' = k")
    case True
    with eq show ?thesis by simp
  next
    case False
    show ?thesis
    proof (rule get_op_effect [of k' s])
      fix Q' B'
      assume g: "get_op k' s = (nextPid s, s\<lparr>batchQueue := Q', batchScheduled := B', nextPid := Suc (nextPid s)\<rparr>)"
        and m: "map operation Q' = ?ops @
                  (if OpGet k' \<in> operation ` set (batchQueue s) then [] else [OpGet k'])"
      show ?thesis
        using assms False by (simp add: g m)
    qed
  qed
qed

section \<open>Positional delivery\<close>

lemma call_resolve_cong:
  assumes "\<forall>q \<in> set (resolver_pids r). promises s1 q = promises s q"
    and "promises s1 p = promises s p"
  shows "promises (call_resolve r v s1) p = promises (call_resolve r v s) p"
  using assms
proof (induction r arbitrary: p)
  case (ResolveBoth r q)
  have "promises (call_resolve r v s1) p = promises (call_resolve r v s) p"
    using ResolveBoth.prems by (intro ResolveBoth.IH) simp_all
  moreover have "promises (call_resolve r v s1) q = promises (call_resolve r v s) q"
    using ResolveBoth.prems by (intro ResolveBoth.IH) simp_all
  ultimately show ?case by (simp add: promises_settle)
qed (simp_all add: promises_settle)

lemma call_resolve_fulfils:
  assumes "p \<in> set (resolver_pids r)" "promises s p = Pending"
  shows "\<exists>v'. promises (call_resolve r v s) p = Fulfilled (PVal v')"
  using assms
proof (induction r)
  case (ResolveBoth r q)
  show ?case
  proof (cases "p \<in> set (resolver_pids r)")
    case True
    with ResolveBoth obtain v' where "promises (call_resolve r v s) p = Fulfilled (PVal v')"
      by blast
    then show ?thesis by (auto simp: promises_settle)
  next
    case False
    with ResolveBoth.prems have "p = q" by simp
    moreover from False ResolveBoth.prems have "promises (call_resolve r v s) p = Pending"
      by (simp add: promises_call_resolve_other)
    ultimately show ?thesis by (simp add: promises_settle)
  qed
qed (simp_all add: promises_settle)

lemma deliver_result_no_throw:
  assumes "r \<noteq> Undefined" "r \<noteq> Null" "i < length queue"
  shows "snd (deliver_result queue r i s) = None"
  using assms by (cases r) (simp_all add: deliver_result_def)

lemma deliver_result_cong:
  assumes "i < length queue"
    and "\<forall>q \<in> set (handles (queue ! i)). promises s1 q = promises s q"
    and "promises s1 p = promises s p"
  shows "promises (fst (deliver_result queue r i s1)) p = promises (fst (deliver_result queue r i s)) p"
  using assms
  by (auto simp: deliver_result_def handles_def call_resolve_cong split: sum.splits)

lemma handles_disjoint:
  assumes "distinct (queue_pids queue)" "i < length queue" "j < length queue" "i \<noteq> j"
  shows "set (handles (queue ! i)) \<inter> set (handles (queue ! j)) = {}"
proof -
  show ?thesis
    using assms
  proof (induction queue arbitrary: i j)
    case Nil
    then show ?case by simp
  next
    case (Cons item queue)
    from Cons.prems(1) have dq: "distinct (queue_pids queue)"
      and dh: "set (handles item) \<inter> set (queue_pids queue) = {}" by auto
    show ?case
    proof (cases i)
      case 0
      with Cons.prems obtain j' where j: "j = Suc j'" "j' < length queue" by (cases j) auto
      with handles_subset [of j' queue] dh 0 show ?thesis by auto
    next
      case (Suc i')
      show ?thesis
      proof (cases j)
        case 0
        with Suc Cons.prems handles_subset [of i' queue] dh show ?thesis by auto
      next
        case j: (Suc j')
        with Suc Cons.prems Cons.IH [OF dq, of i' j'] show ?thesis by simp
      qed
    qed
  qed
qed

lemma promises_forEach_results_before:
  assumes "\<forall>j < length rs. i0 + j < length queue \<longrightarrow> p \<notin> set (handles (queue ! (i0 + j)))"
  shows "promises (fst (forEach_results queue rs i0 s)) p = promises s p"
  using assms
proof (induction rs arbitrary: i0 s)
  case Nil
  show ?case by simp
next
  case (Cons r rs)
  obtain s' e where d: "deliver_result queue r i0 s = (s', e)" by (cases "deliver_result queue r i0 s")
  have "promises (fst (deliver_result queue r i0 s)) p = promises s p"
    using Cons.prems by (intro promises_deliver_result_other) force
  with d have 1: "promises s' p = promises s p" by simp
  have "promises (fst (forEach_results queue rs (Suc i0) s')) p = promises s' p"
    using Cons.prems by (intro Cons.IH) force
  with d 1 show ?case by (cases e) simp_all
qed

lemma forEach_results_positional:
  assumes "distinct (queue_pids queue)" "i0 + length rs \<le> length queue"
    and "\<forall>r \<in> set rs. r \<noteq> Undefined \<and> r \<noteq> Null"
  shows "snd (forEach_results queue rs i0 s) = None
       \<and> (\<forall>j < length rs. \<forall>p \<in> set (handles (queue ! (i0 + j))).
           promises (fst (forEach_results queue rs i0 s)) p
             = promises (fst (deliver_result queue (rs ! j) (i0 + j) s)) p)"
  using assms(2,3)
proof (induction rs arbitrary: i0 s)
  case Nil
  show ?case by simp
next
  case (Cons r rs)
  obtain s' e where d: "deliver_result queue r i0 s = (s', e)" by (cases "deliver_result queue r i0 s")
  from Cons.prems have i0: "i0 < length queue" and r: "r \<noteq> Undefined" "r \<noteq> Null"
    and le: "Suc i0 + length rs \<le> length queue"
    and rs: "\<forall>r \<in> set rs. r \<noteq> Undefined \<and> r \<noteq> Null" by simp_all
  from deliver_result_no_throw [OF r i0, of s] d have e: "e = None" by simp
  note IH = Cons.IH [OF le rs, of s']
  have 1: "snd (forEach_results queue (r # rs) i0 s) = None"
    using IH d e by simp
  have 2: "promises (fst (forEach_results queue (r # rs) i0 s)) p
              = promises (fst (deliver_result queue ((r # rs) ! j) (i0 + j) s)) p"
    if j: "j < length (r # rs)" and p: "p \<in> set (handles (queue ! (i0 + j)))" for j p
  proof (cases j)
    case 0
    have "promises (fst (forEach_results queue rs (Suc i0) s')) p = promises s' p"
    proof (rule promises_forEach_results_before, intro allI impI)
      fix j' assume "j' < length rs" "Suc i0 + j' < length queue"
      with handles_disjoint [OF assms(1), of i0 "Suc i0 + j'"] i0 p 0
      show "p \<notin> set (handles (queue ! (Suc i0 + j')))" by auto
    qed
    with d e 0 show ?thesis by simp
  next
    case (Suc j')
    with j have j': "j' < length rs" by simp
    from Suc p have p': "p \<in> set (handles (queue ! (Suc i0 + j')))" by simp
    from j' le have lt: "Suc i0 + j' < length queue" by simp
    have agree: "promises s' q = promises s q" if "q \<in> set (handles (queue ! (Suc i0 + j')))" for q
    proof -
      from handles_disjoint [OF assms(1), of i0 "Suc i0 + j'"] i0 lt that
      have "q \<notin> set (handles (queue ! i0))" by auto
      then have "promises (fst (deliver_result queue r i0 s)) q = promises s q"
        by (intro promises_deliver_result_other) simp
      with d show ?thesis by simp
    qed
    have "promises (fst (forEach_results queue rs (Suc i0) s')) p
            = promises (fst (deliver_result queue (rs ! j') (Suc i0 + j') s')) p"
      using IH j' p' by blast
    also have "\<dots> = promises (fst (deliver_result queue (rs ! j') (Suc i0 + j') s)) p"
      using agree p' by (intro deliver_result_cong [OF lt]) simp_all
    finally show ?thesis using d e Suc by simp
  qed
  from 1 2 show ?case by blast
qed

lemma flush_success_positional:
  assumes "inv_core s" "map_of (inflight s) x = Some (FlushPost queue)"
    and "getProp body ''results'' = Inr (JArr rs)" "length rs \<le> length queue"
    and "\<forall>r \<in> set rs. r \<noteq> Undefined \<and> r \<noteq> Null"
  shows "\<forall>i < length rs. \<forall>p \<in> set (handles (queue ! i)).
           promises (arrive x (Inr body) s) p = promises (fst (deliver_result queue (rs ! i) i s)) p"
    and "\<forall>p. (\<forall>i < length rs. p \<notin> set (handles (queue ! i))) \<longrightarrow>
           promises (arrive x (Inr body) s) p = promises s p"
    and "batchQueue (arrive x (Inr body) s) = batchQueue s"
proof -
  note f = flush_in_flight(1-4) [OF assms(1,2)]
  from flush_in_flight(5) [OF assms(1,2), of "Inr body"] obtain s0 where
    a: "arrive x (Inr body) s = flushBatch_resume queue (Inr body) s0"
    and s0: "promises s0 = promises s" "batchQueue s0 = batchQueue s" by blast
  have pos: "snd (forEach_results queue rs 0 s0) = None
       \<and> (\<forall>j < length rs. \<forall>p \<in> set (handles (queue ! (0 + j))).
           promises (fst (forEach_results queue rs 0 s0)) p
             = promises (fst (deliver_result queue (rs ! j) (0 + j) s0)) p)"
    using assms(4,5) by (intro forEach_results_positional [OF f(1)]) simp_all
  then have r: "flushBatch_resume queue (Inr body) s0 = fst (forEach_results queue rs 0 s0)"
    by (cases "forEach_results queue rs 0 s0") (simp add: flushBatch_resume_def assms(3))
  show "\<forall>i < length rs. \<forall>p \<in> set (handles (queue ! i)).
           promises (arrive x (Inr body) s) p = promises (fst (deliver_result queue (rs ! i) i s)) p"
  proof (intro allI impI ballI)
    fix i p assume i: "i < length rs" and p: "p \<in> set (handles (queue ! i))"
    from i assms(4) have lt: "i < length queue" by simp
    from pos i p have "promises (arrive x (Inr body) s) p =
        promises (fst (deliver_result queue (rs ! i) i s0)) p" by (simp add: a r)
    also have "\<dots> = promises (fst (deliver_result queue (rs ! i) i s)) p"
      by (intro deliver_result_cong [OF lt]) (simp_all add: s0)
    finally show "promises (arrive x (Inr body) s) p =
        promises (fst (deliver_result queue (rs ! i) i s)) p" .
  qed
  show "\<forall>p. (\<forall>i < length rs. p \<notin> set (handles (queue ! i))) \<longrightarrow>
           promises (arrive x (Inr body) s) p = promises s p"
    using promises_forEach_results_before [of rs 0 queue _ s0] by (simp add: a r s0)
  have "batchQueue (fst (forEach_results queue rs 0 s0)) = batchQueue s0"
    using heap_only_fields(1) [OF forEach_results_heap_only] .
  then show "batchQueue (arrive x (Inr body) s) = batchQueue s" by (simp add: a r s0)
qed

lemma deliver_result_by_op:
  assumes "i < length queue" "getProp r ''op'' = Inr opv"
  shows "fst (deliver_result queue r i s) =
     (if opv = JStr ''get''
      then call_resolve (resolve (queue ! i)) (case getProp r ''value'' of Inr v \<Rightarrow> v | Inl e \<Rightarrow> Undefined) s
      else if opv = JStr ''set'' \<or> opv = JStr ''delete''
      then call_resolve (resolve (queue ! i)) Undefined s
      else s)"
proof -
  from assms(2) have "r \<noteq> Undefined" "r \<noteq> Null" by auto
  then obtain v where "getProp r ''value'' = Inr v" by (cases r) simp_all
  with assms show ?thesis by (simp add: deliver_result_def)
qed

section \<open>Results the store marks as failed\<close>

text \<open>
  Claim C6, as stated, fails. In a batch whose exchange succeeds, a write result with
  \<^verbatim>\<open>success: false\<close> resolves the handle of its operation, and a result that carries
  an error instead of an operation leaves the handle pending; neither rejects it.
\<close>

theorem store_failure_not_rejected_counterexample:
  "promises (run [CallSet ''a'' (JNum 1) None, CallGet ''b'', Microtask,
                  Arrive 0 (Inr (batch_response [set_result ''a'' False,
                                                 get_result ''b'' (JNum 2)]))] init) 0
     = Fulfilled (PVal Undefined)
   \<and> promises (run [CallSet ''a'' (JNum 1) None, CallGet ''b'', Microtask,
                    Arrive 0 (Inr (batch_response [error_result ''store failure'',
                                                   get_result ''b'' (JNum 2)]))] init) 0
     = Pending"
  by (simp add: eval_defs)

text \<open>
  Claim C6, amended. In every reachable state, when the exchange of a batch succeeds with
  a results array no longer than the batch and without \<^verbatim>\<open>null\<close> entries, no result
  rejects a handle: a result whose \<^verbatim>\<open>op\<close> is \<^verbatim>\<open>get\<close>, \<^verbatim>\<open>set\<close> or \<^verbatim>\<open>delete\<close>
  resolves every handle of the operation at its position, whatever else it carries (a
  \<^verbatim>\<open>success\<close> flag is not read); a result with any other \<^verbatim>\<open>op\<close>, such as an error
  report, leaves those handles pending. What a handle receives depends on the result at
  its own position only, so siblings settle with their own results.
\<close>

theorem store_failure_leaves_handle_unrejected:
  assumes "map_of (inflight (run es init)) x = Some (FlushPost queue)"
    and "getProp body ''results'' = Inr (JArr rs)"
    and "length rs \<le> length queue"
    and "\<forall>r \<in> set rs. r \<noteq> Undefined \<and> r \<noteq> Null"
    and "i < length rs"
    and "p \<in> set (handles (queue ! i))"
  shows "(getProp (rs ! i) ''op'' \<in> {Inr (JStr ''get''), Inr (JStr ''set''), Inr (JStr ''delete'')}
            \<longrightarrow> (\<exists>v. promises (exec (Arrive x (Inr body)) (run es init)) p = Fulfilled (PVal v)))
       \<and> (getProp (rs ! i) ''op'' \<notin> {Inr (JStr ''get''), Inr (JStr ''set''), Inr (JStr ''delete'')}
            \<longrightarrow> promises (exec (Arrive x (Inr body)) (run es init)) p = Pending)
       \<and> promises (exec (Arrive x (Inr body)) (run es init)) p
            = promises (fst (deliver_result queue (rs ! i) i (run es init))) p"
proof -
  let ?s = "run es init"
  note c = core_reachable [of es]
  from assms(3,5) have lt: "i < length queue" by simp
  from assms(6) lt have "p \<in> set (queue_pids queue)" using handles_subset by blast
  with flush_in_flight(2) [OF c assms(1)] have pend: "promises ?s p = Pending" by blast
  have pos: "promises (exec (Arrive x (Inr body)) ?s) p
      = promises (fst (deliver_result queue (rs ! i) i ?s)) p"
    using flush_success_positional(1) [OF c assms(1-4)] assms(5,6) by simp
  from assms(4,5) have "rs ! i \<noteq> Undefined" "rs ! i \<noteq> Null" by auto
  then obtain opv where o: "getProp (rs ! i) ''op'' = Inr opv" by (cases "rs ! i") simp_all
  note d = deliver_result_by_op [OF lt o, of ?s]
  from assms(6) have h: "p \<in> set (resolver_pids (resolve (queue ! i)))" by (simp add: handles_def)
  show ?thesis
  proof (cases "opv = JStr ''get'' \<or> opv = JStr ''set'' \<or> opv = JStr ''delete''")
    case True
    then have "\<exists>v. promises (fst (deliver_result queue (rs ! i) i ?s)) p = Fulfilled (PVal v)"
      using call_resolve_fulfils [OF h pend] by (auto simp: d)
    with True o pos show ?thesis by auto
  next
    case False
    then have "promises (fst (deliver_result queue (rs ! i) i ?s)) p = Pending"
      using pend by (simp add: d)
    with False o pos show ?thesis by auto
  qed
qed

theorem store_failure_leaves_handle_unrejected_witness:
  "promises (exec (Arrive 0 (Inr (batch_response [error_result ''store failure'',
                                                  get_result ''b'' (JNum 2)])))
       (run [CallSet ''a'' (JNum 1) None, CallGet ''b'', Microtask] init)) 0 = Pending
   \<and> promises (exec (Arrive 0 (Inr (batch_response [error_result ''store failure'',
                                                  get_result ''b'' (JNum 2)])))
       (run [CallSet ''a'' (JNum 1) None, CallGet ''b'', Microtask] init)) 1
     = Fulfilled (PVal (JNum 2))"
proof -
  let ?queue = "[\<lparr>operation = OpSet ''a'' (JNum 1) None, resolve = Resolve 0, reject = Reject 0\<rparr>,
                 \<lparr>operation = OpGet ''b'', resolve = ResolveNullConv 1, reject = Reject 1\<rparr>]"
  let ?rs = "[error_result ''store failure'', get_result ''b'' (JNum 2)]"
  have q: "map_of (inflight (run [CallSet ''a'' (JNum 1) None, CallGet ''b'', Microtask] init)) 0
     = Some (FlushPost ?queue)"
    by (simp add: eval_defs)
  have b: "getProp (batch_response ?rs) ''results'' = Inr (JArr ?rs)"
    "length ?rs \<le> length ?queue" "\<forall>r \<in> set ?rs. r \<noteq> Undefined \<and> r \<noteq> Null"
    by (simp_all add: batch_response_def error_result_def get_result_def)
  have "(0::nat) < length ?rs" "(0::nat) \<in> set (handles (?queue ! 0))"
    "(1::nat) < length ?rs" "(1::nat) \<in> set (handles (?queue ! 1))"
    by (simp_all add: handles_def)
  note i = this
  have "promises (exec (Arrive 0 (Inr (batch_response ?rs)))
       (run [CallSet ''a'' (JNum 1) None, CallGet ''b'', Microtask] init)) 0 = Pending"
    using store_failure_leaves_handle_unrejected [OF q b i(1,2), THEN conjunct2, THEN conjunct1]
    by (simp add: error_result_def)
  moreover have "promises (fst (deliver_result ?queue (?rs ! 1) 1
       (run [CallSet ''a'' (JNum 1) None, CallGet ''b'', Microtask] init))) 1
     = Fulfilled (PVal (JNum 2))"
    by (simp add: eval_defs)
  then have "promises (exec (Arrive 0 (Inr (batch_response ?rs)))
       (run [CallSet ''a'' (JNum 1) None, CallGet ''b'', Microtask] init)) 1
     = Fulfilled (PVal (JNum 2))"
    using store_failure_leaves_handle_unrejected [OF q b i(3,4), THEN conjunct2, THEN conjunct2]
    by (simp only:)
  ultimately show ?thesis by blast
qed

section \<open>One cycle, one batch, in order\<close>

lemma queue_call_ops:
  assumes "is_queue_call c"
  shows "map operation (batchQueue (exec c s)) = spec_enqueue (map operation (batchQueue s)) c"
    and "sent (exec c s) = sent s" and "inflight (exec c s) = inflight s"
proof -
  show "map operation (batchQueue (exec c s)) = spec_enqueue (map operation (batchQueue s)) c"
  proof (cases c)
    case (CallSet k v t)
    then show ?thesis by (simp add: set_op_def prim_defs)
  next
    case (CallGet k)
    show ?thesis
      by (rule get_op_effect [of k s]) (simp add: CallGet)
  next
    case (CallDelete k)
    then show ?thesis by (simp add: delete_op_def prim_defs)
  qed (use assms in simp_all)
  show "sent (exec c s) = sent s" "inflight (exec c s) = inflight s"
    using assms
    by (cases c; simp add: set_op_def delete_op_def get_op_def prim_defs split: option.splits)+
qed

lemma queue_call_scheduled:
  assumes "is_queue_call c" "batchQueue s \<noteq> [] \<longrightarrow> batchScheduled s"
  shows "batchScheduled (exec c s) \<and> batchQueue (exec c s) \<noteq> []"
proof (cases c)
  case (CallGet k)
  show ?thesis
  proof (cases "find_index (is_get_for k) (batchQueue s)")
    case None
    with CallGet show ?thesis by (simp add: get_op_def prim_defs)
  next
    case (Some i)
    from find_index_Some [OF Some] have "batchQueue s \<noteq> []" by auto
    with Some CallGet assms(2) show ?thesis by (simp add: get_op_def prim_defs)
  qed
qed (use assms in \<open>simp_all add: set_op_def delete_op_def prim_defs\<close>)

lemma queue_calls_run:
  assumes "list_all is_queue_call calls"
  shows "map operation (batchQueue (run calls s))
           = foldl spec_enqueue (map operation (batchQueue s)) calls"
    and "sent (run calls s) = sent s" and "inflight (run calls s) = inflight s"
  using assms
  by (induction calls arbitrary: s) (simp_all add: run_def queue_call_ops)

lemma queue_calls_scheduled:
  assumes "list_all is_queue_call calls" "calls \<noteq> []" "batchQueue s \<noteq> [] \<longrightarrow> batchScheduled s"
  shows "batchScheduled (run calls s) \<and> batchQueue (run calls s) \<noteq> []"
  using assms
proof (induction calls arbitrary: s)
  case Nil
  then show ?case by simp
next
  case (Cons c calls)
  from Cons.prems have c: "batchScheduled (exec c s) \<and> batchQueue (exec c s) \<noteq> []"
    by (intro queue_call_scheduled) simp_all
  show ?case
  proof (cases "calls = []")
    case True
    with c show ?thesis by (simp add: run_def)
  next
    case False
    with Cons.prems c Cons.IH [of "exec c s"] show ?thesis by (simp add: run_def)
  qed
qed

lemma run_append: "run (es @ es') s = run es' (run es s)"
  by (simp add: run_def)

lemma one_cycle_one_batch:
  assumes "list_all is_queue_call calls" "calls \<noteq> []"
  shows "sent (run (calls @ [Microtask]) init) = [HttpPostBatch (spec_batch calls)]"
    and "inflight (run (calls @ [Microtask]) init) = [(0, FlushPost (batchQueue (run calls init)))]"
    and "map operation (batchQueue (run calls init)) = spec_batch calls"
    and "batchQueue (run (calls @ [Microtask]) init) = []"
    and "\<not> batchScheduled (run (calls @ [Microtask]) init)"
proof -
  let ?s = "run calls init"
  have i: "batchQueue init = []" "sent init = []" "inflight init = []" by (simp_all add: init_def)
  note r = queue_calls_run [OF assms(1), of init]
  from queue_calls_scheduled [OF assms, of init] i
  have sch: "batchScheduled ?s" and ne: "batchQueue ?s \<noteq> []" by simp_all
  show m: "map operation (batchQueue ?s) = spec_batch calls"
    using r(1) by (simp add: i spec_batch_def)
  have e: "run (calls @ [Microtask]) init = flushBatch ?s"
    using sch by (simp add: run_append) (simp add: run_def)
  show "sent (run (calls @ [Microtask]) init) = [HttpPostBatch (spec_batch calls)]"
    "inflight (run (calls @ [Microtask]) init) = [(0, FlushPost (batchQueue ?s))]"
    "batchQueue (run (calls @ [Microtask]) init) = []"
    "\<not> batchScheduled (run (calls @ [Microtask]) init)"
    using ne m r(2,3) by (simp_all add: e flushBatch_def prim_defs i)
qed

section \<open>The steps of remember\<close>

lemma resume_step:
  assumes "inv_core s" "i < length (waiters s)" "waiters s ! i = (g, k)"
    and "promises s g \<noteq> Pending" "frame_pids k = [p]"
  shows "\<exists>A B. waiters s = A @ (g, k) # B
           \<and> exec (Resume i) s = resume k (promises s g) (s\<lparr>waiters := A @ B\<rparr>)"
    and "promises s p = Pending" and "p < nextPid s"
    and "frame_before_producer k = [p] \<Longrightarrow> producer_calls p (sent s) = 0"
proof -
  obtain A B where w: "waiters s = A @ (g, k) # B"
    and r: "run_waiter i s = resume k (promises s g) (s\<lparr>waiters := A @ B\<rparr>)"
    by (rule run_waiter_shape [OF assms(2,3,4)])
  then show "\<exists>A B. waiters s = A @ (g, k) # B
           \<and> exec (Resume i) s = resume k (promises s g) (s\<lparr>waiters := A @ B\<rparr>)"
    by auto
  note rm = core_remove_waiter [OF assms(1) w assms(5)]
  show "promises s p = Pending" "p < nextPid s" by (rule rm(4), rule rm(3))
  show "producer_calls p (sent s) = 0" if "frame_before_producer k = [p]"
    using rm(5) that by simp
qed

lemma arrive_step:
  assumes "inv_core s" "map_of (inflight s) x = Some k" "xframe_pids k = [p]"
  shows "\<exists>A B. inflight s = A @ (x, k) # B
           \<and> exec (Arrive x out) s = resume_ext k out (s\<lparr>inflight := A @ B\<rparr>)"
    and "promises s p = Pending" and "p < nextPid s"
proof -
  obtain A B where x: "inflight s = A @ (x, k) # B"
    and a: "arrive x out s = resume_ext k out (s\<lparr>inflight := A @ B\<rparr>)"
    by (rule arrive_shape [OF assms(1,2)])
  then show "\<exists>A B. inflight s = A @ (x, k) # B
           \<and> exec (Arrive x out) s = resume_ext k out (s\<lparr>inflight := A @ B\<rparr>)"
    by auto
  note rm = core_remove_inflight [OF assms(1) x]
  from rm(3) assms(3) show "promises s p = Pending" "p < nextPid s" by simp_all
qed

lemma map_of_fresh_index:
  assumes "\<forall>e \<in> set xs. fst e < (n::nat)"
  shows "map_of (xs @ [(n, k)]) n = Some k"
proof -
  from assms have "n \<notin> fst ` set xs" by fastforce
  then have "map_of xs n = None" by (simp add: map_of_eq_None_iff)
  then show ?thesis by (simp add: map_add_def)
qed

lemma inflight_bound: "inv_core s \<Longrightarrow> \<forall>e \<in> set (inflight s). fst e < length (sent s)"
  by (simp add: inv_core_def inv_inflight_def)

lemma live_registered:
  assumes "inv s"
  shows "(key, p) \<in> set (remember_live s) \<longleftrightarrow> rememberPromises s key = Some p"
  using assms by (simp add: inv_def inv_registry_def registry_ok_def)

lemma waiting_remember_registered:
  assumes "inv s" "i < length (waiters s)" "waiters s ! i = (g, k)" "frame_key k = [(key, p)]"
  shows "rememberPromises s key = Some p"
proof -
  from assms(2,3) have "(g, k) \<in> set (waiters s)" by (metis nth_mem)
  then have "(key, p) \<in> set (waiter_keys (waiters s))"
    using assms(4) by (force simp: waiter_keys_def)
  then have "(key, p) \<in> set (remember_live s)" by (simp add: remember_live_def)
  then show ?thesis using live_registered [OF assms(1)] by blast
qed

lemma registered_pending:
  assumes "inv s" "rememberPromises s key = Some p"
  shows "promises s p = Pending" "p < nextPid s"
proof -
  from assms have l: "(key, p) \<in> set (remember_live s)" by (simp add: live_registered)
  have "snd ` set (waiter_keys ws) \<subseteq> set (waiter_pids ws)" for ws
  proof (induction ws)
    case (Cons e ws)
    have "snd ` set (frame_key (snd e)) \<subseteq> set (frame_pids (snd e))"
      by (cases "snd e") simp_all
    with Cons show ?case by auto
  qed simp
  moreover have "snd ` set (inflight_keys xs) \<subseteq> set (inflight_pids xs)" for xs
  proof (induction xs)
    case (Cons e xs)
    have "snd ` set (xframe_key (snd e)) \<subseteq> set (xframe_pids (snd e))"
      by (cases "snd e") simp_all
    with Cons show ?case by auto
  qed simp
  ultimately have "snd ` set (remember_live s) \<subseteq> set (owned s)"
    unfolding remember_live_def owned_def set_append image_Un by blast
  with l have o: "p \<in> set (owned s)" by force
  from assms(1) have c: "inv_core s" by (simp add: inv_def)
  show "promises s p = Pending" "p < nextPid s"
    using owned_pending [OF c o] owned_bound [OF c o] by simp_all
qed

lemma remember_hit:
  assumes "inv s" "i < length (waiters s)"
    and "waiters s ! i = (g, RememberGet key fallback ttl p)"
    and "promises s g = Fulfilled cached" "cached \<noteq> PVal Null"
  shows "promises (exec (Resume i) s) p = Fulfilled cached"
    and "sent (exec (Resume i) s) = sent s"
    and "batchQueue (exec (Resume i) s) = batchQueue s"
    and "rememberPromises (exec (Resume i) s) key = None"
proof -
  from assms(1) have c: "inv_core s" by (simp add: inv_def)
  have ne: "promises s g \<noteq> Pending" using assms(4) by simp
  note st = resume_step [OF c assms(2,3) ne, of p]
  from st(1) [simplified] obtain A B where
    e: "exec (Resume i) s = resume (RememberGet key fallback ttl p) (promises s g) (s\<lparr>waiters := A @ B\<rparr>)"
    by auto
  show "promises (exec (Resume i) s) p = Fulfilled cached"
    "sent (exec (Resume i) s) = sent s" "batchQueue (exec (Resume i) s) = batchQueue s"
    "rememberPromises (exec (Resume i) s) key = None"
    using assms(4,5) st(2) [simplified]
    by (simp_all only: e) (simp_all add: remember_finish_def promises_settle)
qed

lemma remember_read_fails:
  assumes "inv s" "i < length (waiters s)"
    and "waiters s ! i = (g, RememberGet key fallback ttl p)"
    and "promises s g = Rejected e"
  shows "promises (exec (Resume i) s) p = Rejected e"
    and "sent (exec (Resume i) s) = sent s"
    and "batchQueue (exec (Resume i) s) = batchQueue s"
    and "rememberPromises (exec (Resume i) s) key = None"
proof -
  from assms(1) have c: "inv_core s" by (simp add: inv_def)
  have ne: "promises s g \<noteq> Pending" using assms(4) by simp
  note st = resume_step [OF c assms(2,3) ne, of p]
  from st(1) [simplified] obtain A B where
    e: "exec (Resume i) s = resume (RememberGet key fallback ttl p) (promises s g) (s\<lparr>waiters := A @ B\<rparr>)"
    by auto
  show "promises (exec (Resume i) s) p = Rejected e"
    "sent (exec (Resume i) s) = sent s" "batchQueue (exec (Resume i) s) = batchQueue s"
    "rememberPromises (exec (Resume i) s) key = None"
    using assms(4) st(2) [simplified]
    by (simp_all only: e) (simp_all add: remember_finish_def promises_settle)
qed

lemma remember_miss:
  assumes "inv s" "i < length (waiters s)"
    and "waiters s ! i = (g, RememberGet key fallback ttl p)"
    and "promises s g = Fulfilled (PVal Null)"
  shows "sent (exec (Resume i) s) = sent s @ [Producer fallback p]"
    and "map_of (inflight (exec (Resume i) s)) (length (sent s)) = Some (RememberFallback key ttl p)"
    and "promises (exec (Resume i) s) p = Pending"
    and "batchQueue (exec (Resume i) s) = batchQueue s"
    and "rememberPromises (exec (Resume i) s) key = Some p"
    and "producer_calls p (sent s) = 0"
    and "producer_calls p (sent (exec (Resume i) s)) = 1"
proof -
  from assms(1) have c: "inv_core s" by (simp add: inv_def)
  have ne: "promises s g \<noteq> Pending" using assms(4) by simp
  note st = resume_step [OF c assms(2,3) ne, of p]
  from st(1) [simplified] obtain A B where
    e: "exec (Resume i) s = resume (RememberGet key fallback ttl p) (promises s g) (s\<lparr>waiters := A @ B\<rparr>)"
    by auto
  have r: "rememberPromises s key = Some p"
    by (rule waiting_remember_registered [OF assms(1,2,3)]) simp
  show "producer_calls p (sent s) = 0" using st(4) by simp
  then show "sent (exec (Resume i) s) = sent s @ [Producer fallback p]"
    "map_of (inflight (exec (Resume i) s)) (length (sent s)) = Some (RememberFallback key ttl p)"
    "promises (exec (Resume i) s) p = Pending"
    "batchQueue (exec (Resume i) s) = batchQueue s"
    "rememberPromises (exec (Resume i) s) key = Some p"
    "producer_calls p (sent (exec (Resume i) s)) = 1"
    using assms(4) st(2) [simplified] r map_of_fresh_index [OF inflight_bound [OF c]]
    by (simp_all only: e) (simp_all add: await_ext_def)
qed

lemma remember_produced:
  assumes "inv s" "map_of (inflight s) x = Some (RememberFallback key ttl p)"
  shows "batchQueue (exec (Arrive x (Inr v)) s)
           = batchQueue s @ [\<lparr>operation = OpSet key v ttl, resolve = Resolve (nextPid s),
                               reject = Reject (nextPid s)\<rparr>]"
    and "waiters (exec (Arrive x (Inr v)) s) = waiters s @ [(nextPid s, RememberSet key v p)]"
    and "promises (exec (Arrive x (Inr v)) s) p = Pending"
    and "sent (exec (Arrive x (Inr v)) s) = sent s"
    and "rememberPromises (exec (Arrive x (Inr v)) s) key = rememberPromises s key"
proof -
  from assms(1) have c: "inv_core s" by (simp add: inv_def)
  note st = arrive_step [OF c assms(2), of p]
  from st(1) [simplified, of "Inr v"] obtain A B where
    e: "exec (Arrive x (Inr v)) s = resume_ext (RememberFallback key ttl p) (Inr v) (s\<lparr>inflight := A @ B\<rparr>)"
    by auto
  show "batchQueue (exec (Arrive x (Inr v)) s)
           = batchQueue s @ [\<lparr>operation = OpSet key v ttl, resolve = Resolve (nextPid s),
                               reject = Reject (nextPid s)\<rparr>]"
    "waiters (exec (Arrive x (Inr v)) s) = waiters s @ [(nextPid s, RememberSet key v p)]"
    "promises (exec (Arrive x (Inr v)) s) p = Pending"
    "sent (exec (Arrive x (Inr v)) s) = sent s"
    "rememberPromises (exec (Arrive x (Inr v)) s) key = rememberPromises s key"
    using st(2) [simplified]
    by (simp_all only: e) (simp_all add: set_op_def prim_defs)
qed

lemma remember_producer_fails:
  assumes "inv s" "map_of (inflight s) x = Some (RememberFallback key ttl p)"
  shows "promises (exec (Arrive x (Inl e)) s) p = Rejected e"
    and "batchQueue (exec (Arrive x (Inl e)) s) = batchQueue s"
    and "waiters (exec (Arrive x (Inl e)) s) = waiters s"
    and "sent (exec (Arrive x (Inl e)) s) = sent s"
    and "rememberPromises (exec (Arrive x (Inl e)) s) key = None"
proof -
  from assms(1) have c: "inv_core s" by (simp add: inv_def)
  note st = arrive_step [OF c assms(2), of p]
  from st(1) [simplified, of "Inl e"] obtain A B where
    e: "exec (Arrive x (Inl e)) s = resume_ext (RememberFallback key ttl p) (Inl e) (s\<lparr>inflight := A @ B\<rparr>)"
    by auto
  show "promises (exec (Arrive x (Inl e)) s) p = Rejected e"
    "batchQueue (exec (Arrive x (Inl e)) s) = batchQueue s"
    "waiters (exec (Arrive x (Inl e)) s) = waiters s"
    "sent (exec (Arrive x (Inl e)) s) = sent s"
    "rememberPromises (exec (Arrive x (Inl e)) s) key = None"
    using st(2) [simplified]
    by (simp_all only: e) (simp_all add: remember_finish_def promises_settle)
qed

lemma remember_written:
  assumes "inv s" "i < length (waiters s)"
    and "waiters s ! i = (g, RememberSet key v p)"
    and "promises s g \<noteq> Pending"
  shows "promises (exec (Resume i) s) p
           = (case promises s g of Rejected e \<Rightarrow> Rejected e | _ \<Rightarrow> Fulfilled (PVal v))"
    and "sent (exec (Resume i) s) = sent s"
    and "batchQueue (exec (Resume i) s) = batchQueue s"
    and "rememberPromises (exec (Resume i) s) key = None"
proof -
  from assms(1) have c: "inv_core s" by (simp add: inv_def)
  note st = resume_step [OF c assms(2,3,4), of p]
  from st(1) [simplified] obtain A B where
    e: "exec (Resume i) s = resume (RememberSet key v p) (promises s g) (s\<lparr>waiters := A @ B\<rparr>)"
    by auto
  show "promises (exec (Resume i) s) p
           = (case promises s g of Rejected e \<Rightarrow> Rejected e | _ \<Rightarrow> Fulfilled (PVal v))"
    "sent (exec (Resume i) s) = sent s" "batchQueue (exec (Resume i) s) = batchQueue s"
    "rememberPromises (exec (Resume i) s) key = None"
    using assms(4) st(2) [simplified]
    by (simp_all only: e) (cases "promises s g"; simp add: remember_finish_def promises_settle)+
qed

lemma remember_join:
  "rememberPromises s key = Some p \<Longrightarrow> remember key fallback ttl s = (p, s)"
  by (simp add: remember_def)

lemma remember_start:
  assumes "inv s" "rememberPromises s key = None"
  shows "fst (remember key fallback ttl s) = nextPid s"
    and "rememberPromises (snd (remember key fallback ttl s)) key = Some (nextPid s)"
    and "waiters (snd (remember key fallback ttl s))
           = waiters s @ [(Suc (nextPid s), RememberGet key fallback ttl (nextPid s))]"
    and "fst (get_op key (snd (new_promise s))) = Suc (nextPid s)"
    and "map operation (batchQueue (snd (remember key fallback ttl s)))
           = spec_enqueue (map operation (batchQueue s)) (CallGet key)"
    and "sent (snd (remember key fallback ttl s)) = sent s"
    and "promises (snd (remember key fallback ttl s)) = promises s"
    and "producer_calls (nextPid s) (sent s) = 0"
proof -
  let ?s1 = "snd (new_promise s)"
  have 1: "inv ?s1" by (rule inv_new_promise [OF assms(1)])
  note g = get_op_facts [OF 1, of key]
  have n1: "nextPid ?s1 = Suc (nextPid s)" "promises ?s1 = promises s" "sent ?s1 = sent s"
    "waiters ?s1 = waiters s" "batchQueue ?s1 = batchQueue s"
    by (simp_all add: new_promise_def)
  have e: "remember key fallback ttl s =
      (nextPid s, (await_promise (Suc (nextPid s)) (RememberGet key fallback ttl (nextPid s))
         (snd (get_op key ?s1)))\<lparr>rememberPromises := (rememberPromises (snd (get_op key ?s1)))(key \<mapsto> nextPid s)\<rparr>)"
    using assms(2) g(1) n1(1)
    by (simp add: remember_def new_promise_def case_prod_beta Let_def await_promise_def)
  show "fst (remember key fallback ttl s) = nextPid s"
    "rememberPromises (snd (remember key fallback ttl s)) key = Some (nextPid s)"
    "waiters (snd (remember key fallback ttl s))
           = waiters s @ [(Suc (nextPid s), RememberGet key fallback ttl (nextPid s))]"
    "sent (snd (remember key fallback ttl s)) = sent s"
    "promises (snd (remember key fallback ttl s)) = promises s"
    by (simp_all add: e await_promise_def g n1)
  show "fst (get_op key ?s1) = Suc (nextPid s)" by (simp add: g n1)
  have "map operation (batchQueue (exec (CallGet key) ?s1))
          = spec_enqueue (map operation (batchQueue ?s1)) (CallGet key)"
    by (rule queue_call_ops(1)) simp
  then show "map operation (batchQueue (snd (remember key fallback ttl s)))
           = spec_enqueue (map operation (batchQueue s)) (CallGet key)"
    by (simp add: e await_promise_def n1)
  from assms(1) have "inv_core s" by (simp add: inv_def)
  then show "producer_calls (nextPid s) (sent s) = 0" by (rule fresh_not_called) simp
qed

lemma producer_calls_bound: "inv s \<Longrightarrow> producer_calls p (sent s) \<le> 1"
  by (simp add: inv_def inv_core_def inv_producer_def)

text \<open>
  Claim C2. In every reachable state \<open>s\<close>: a call of \<^verbatim>\<open>remember\<close> for a key without an
  entry issues the read of the key and waits for it, the producer not yet invoked. When
  the read yields a value other than \<^verbatim>\<open>null\<close>, the call's promise is fulfilled with
  that value and nothing is asked of the producer. When the read yields \<^verbatim>\<open>null\<close>, the
  producer is invoked; when it returns \<open>v\<close>, a write of \<open>v\<close> under the key with the given
  ttl is enqueued and awaited, and once the write is acknowledged the promise is
  fulfilled with \<open>v\<close>. When the read, the producer or the write fails with \<open>e\<close>, the
  promise is rejected with \<open>e\<close>.
\<close>

theorem remember_cache_aside:
  assumes "s = run es init"
  shows "(rememberPromises s key = None \<longrightarrow>
            fst (remember key fallback ttl s) = nextPid s
          \<and> waiters (snd (remember key fallback ttl s))
              = waiters s @ [(Suc (nextPid s), RememberGet key fallback ttl (nextPid s))]
          \<and> fst (get_op key (snd (new_promise s))) = Suc (nextPid s)
          \<and> map operation (batchQueue (snd (remember key fallback ttl s)))
              = spec_enqueue (map operation (batchQueue s)) (CallGet key)
          \<and> sent (snd (remember key fallback ttl s)) = sent s)
       \<and> (i < length (waiters s) \<and> waiters s ! i = (g, RememberGet key fallback ttl p) \<longrightarrow>
            (\<forall>cached. promises s g = Fulfilled cached \<and> cached \<noteq> PVal Null \<longrightarrow>
                 promises (exec (Resume i) s) p = Fulfilled cached
               \<and> sent (exec (Resume i) s) = sent s
               \<and> batchQueue (exec (Resume i) s) = batchQueue s)
          \<and> (promises s g = Fulfilled (PVal Null) \<longrightarrow>
                 sent (exec (Resume i) s) = sent s @ [Producer fallback p]
               \<and> map_of (inflight (exec (Resume i) s)) (length (sent s))
                   = Some (RememberFallback key ttl p)
               \<and> promises (exec (Resume i) s) p = Pending)
          \<and> (\<forall>e. promises s g = Rejected e \<longrightarrow>
                 promises (exec (Resume i) s) p = Rejected e
               \<and> sent (exec (Resume i) s) = sent s))
       \<and> (map_of (inflight s) x = Some (RememberFallback key ttl p) \<longrightarrow>
            (\<forall>v. batchQueue (exec (Arrive x (Inr v)) s)
                   = batchQueue s @ [\<lparr>operation = OpSet key v ttl, resolve = Resolve (nextPid s),
                                       reject = Reject (nextPid s)\<rparr>]
               \<and> waiters (exec (Arrive x (Inr v)) s)
                   = waiters s @ [(nextPid s, RememberSet key v p)]
               \<and> promises (exec (Arrive x (Inr v)) s) p = Pending)
          \<and> (\<forall>e. promises (exec (Arrive x (Inl e)) s) p = Rejected e
               \<and> batchQueue (exec (Arrive x (Inl e)) s) = batchQueue s))
       \<and> (i < length (waiters s) \<and> waiters s ! i = (g, RememberSet key v p) \<longrightarrow>
            (\<forall>u. promises s g = Fulfilled u \<longrightarrow>
                 promises (exec (Resume i) s) p = Fulfilled (PVal v))
          \<and> (\<forall>e. promises s g = Rejected e \<longrightarrow>
                 promises (exec (Resume i) s) p = Rejected e))"
proof -
  have s: "inv s" unfolding assms by (rule inv_reachable)
  have 1: "fst (remember key fallback ttl s) = nextPid s
          \<and> waiters (snd (remember key fallback ttl s))
              = waiters s @ [(Suc (nextPid s), RememberGet key fallback ttl (nextPid s))]
          \<and> fst (get_op key (snd (new_promise s))) = Suc (nextPid s)
          \<and> map operation (batchQueue (snd (remember key fallback ttl s)))
              = spec_enqueue (map operation (batchQueue s)) (CallGet key)
          \<and> sent (snd (remember key fallback ttl s)) = sent s"
    if "rememberPromises s key = None"
    using remember_start [OF s that] by simp
  have 2: "(\<forall>cached. promises s g = Fulfilled cached \<and> cached \<noteq> PVal Null \<longrightarrow>
                 promises (exec (Resume i) s) p = Fulfilled cached
               \<and> sent (exec (Resume i) s) = sent s
               \<and> batchQueue (exec (Resume i) s) = batchQueue s)
          \<and> (promises s g = Fulfilled (PVal Null) \<longrightarrow>
                 sent (exec (Resume i) s) = sent s @ [Producer fallback p]
               \<and> map_of (inflight (exec (Resume i) s)) (length (sent s))
                   = Some (RememberFallback key ttl p)
               \<and> promises (exec (Resume i) s) p = Pending)
          \<and> (\<forall>e. promises s g = Rejected e \<longrightarrow>
                 promises (exec (Resume i) s) p = Rejected e
               \<and> sent (exec (Resume i) s) = sent s)"
    if "i < length (waiters s) \<and> waiters s ! i = (g, RememberGet key fallback ttl p)"
    using remember_hit [OF s] remember_miss(1-3) [OF s] remember_read_fails [OF s] that
    by auto
  have 3: "(\<forall>v. batchQueue (exec (Arrive x (Inr v)) s)
                   = batchQueue s @ [\<lparr>operation = OpSet key v ttl, resolve = Resolve (nextPid s),
                                       reject = Reject (nextPid s)\<rparr>]
               \<and> waiters (exec (Arrive x (Inr v)) s)
                   = waiters s @ [(nextPid s, RememberSet key v p)]
               \<and> promises (exec (Arrive x (Inr v)) s) p = Pending)
          \<and> (\<forall>e. promises (exec (Arrive x (Inl e)) s) p = Rejected e
               \<and> batchQueue (exec (Arrive x (Inl e)) s) = batchQueue s)"
    if "map_of (inflight s) x = Some (RememberFallback key ttl p)"
    using remember_produced [OF s that] remember_producer_fails [OF s that] by simp
  have 4: "(\<forall>u. promises s g = Fulfilled u \<longrightarrow>
                 promises (exec (Resume i) s) p = Fulfilled (PVal v))
          \<and> (\<forall>e. promises s g = Rejected e \<longrightarrow>
                 promises (exec (Resume i) s) p = Rejected e)"
    if "i < length (waiters s) \<and> waiters s ! i = (g, RememberSet key v p)"
    using remember_written(1) [OF s] that by fastforce
  from 1 2 3 4 show ?thesis by blast
qed

theorem remember_cache_aside_witness:
  "fst (remember ''K'' 7 (Some 60) (run [] init)) = 0
   \<and> promises (exec (Resume 0) (run hit_read init)) 0 = Fulfilled (PVal (JStr ''cached''))
   \<and> sent (exec (Resume 0) (run hit_read init)) = [HttpPostBatch [OpGet ''K'']]
   \<and> sent (exec (Resume 0) (run miss_read init)) = [HttpPostBatch [OpGet ''K''], Producer 7 0]
   \<and> map operation (batchQueue (exec (Arrive 1 (Inr (JNum 5))) (run miss_produce init)))
       = [OpSet ''K'' (JNum 5) (Some 60)]
   \<and> promises (exec (Arrive 1 (Inl computation_failed)) (run miss_produce init)) 0
       = Rejected computation_failed
   \<and> promises (exec (Resume 0) (run miss_write init)) 0 = Fulfilled (PVal (JNum 5))"
proof -
  note t = remember_cache_aside
    [where es = "[]" and key = "''K''" and fallback = 7 and ttl = "Some 60", OF refl,
     THEN conjunct1]
  note h = remember_cache_aside
    [where es = hit_read and key = "''K''" and fallback = 7 and ttl = "Some 60"
       and i = 0 and g = 1 and p = 0, OF refl, THEN conjunct2, THEN conjunct1]
  note m = remember_cache_aside
    [where es = miss_read and key = "''K''" and fallback = 7 and ttl = "Some 60"
       and i = 0 and g = 1 and p = 0, OF refl, THEN conjunct2, THEN conjunct1]
  note p = remember_cache_aside
    [where es = miss_produce and key = "''K''" and ttl = "Some 60" and x = 1 and p = 0,
     OF refl, THEN conjunct2, THEN conjunct2, THEN conjunct1]
  note w = remember_cache_aside
    [where es = miss_write and key = "''K''" and i = 0 and g = 2 and p = 0 and v = "JNum 5",
     OF refl, THEN conjunct2, THEN conjunct2, THEN conjunct2]
  have 0: "rememberPromises (run [] init) ''K'' = None" "nextPid (run [] init) = 0"
    by (simp_all add: eval_defs)
  have 1: "fst (remember ''K'' 7 (Some 60) (run [] init)) = 0"
    using t 0 by simp
  have hs: "0 < length (waiters (run hit_read init))
      \<and> waiters (run hit_read init) ! 0 = (1, RememberGet ''K'' 7 (Some 60) 0)"
    "promises (run hit_read init) 1 = Fulfilled (PVal (JStr ''cached''))"
    "sent (run hit_read init) = [HttpPostBatch [OpGet ''K'']]"
    by (simp_all add: eval_defs)
  have 2: "promises (exec (Resume 0) (run hit_read init)) 0 = Fulfilled (PVal (JStr ''cached''))"
    "sent (exec (Resume 0) (run hit_read init)) = [HttpPostBatch [OpGet ''K'']]"
    using h [rule_format, OF hs(1), THEN conjunct1, rule_format, of "PVal (JStr ''cached'')"] hs(2,3)
    by simp_all
  have ms: "0 < length (waiters (run miss_read init))
      \<and> waiters (run miss_read init) ! 0 = (1, RememberGet ''K'' 7 (Some 60) 0)"
    "promises (run miss_read init) 1 = Fulfilled (PVal Null)"
    "sent (run miss_read init) = [HttpPostBatch [OpGet ''K'']]"
    by (simp_all add: eval_defs)
  have 3: "sent (exec (Resume 0) (run miss_read init)) = [HttpPostBatch [OpGet ''K''], Producer 7 0]"
    using m [rule_format, OF ms(1), THEN conjunct2, THEN conjunct1] ms(2,3) by simp
  have ps: "map_of (inflight (run miss_produce init)) 1 = Some (RememberFallback ''K'' (Some 60) 0)"
    "batchQueue (run miss_produce init) = []"
    by (simp_all add: eval_defs)
  have 4: "map operation (batchQueue (exec (Arrive 1 (Inr (JNum 5))) (run miss_produce init)))
       = [OpSet ''K'' (JNum 5) (Some 60)]"
    using p [rule_format, OF ps(1), THEN conjunct1, rule_format, of "JNum 5"] ps(2) by simp
  have 5: "promises (exec (Arrive 1 (Inl computation_failed)) (run miss_produce init)) 0
       = Rejected computation_failed"
    using p [rule_format, OF ps(1), THEN conjunct2, rule_format, of computation_failed] by simp
  have ws: "0 < length (waiters (run miss_write init))
      \<and> waiters (run miss_write init) ! 0 = (2, RememberSet ''K'' (JNum 5) 0)"
    "promises (run miss_write init) 2 = Fulfilled (PVal Undefined)"
    by (simp_all add: eval_defs)
  have 6: "promises (exec (Resume 0) (run miss_write init)) 0 = Fulfilled (PVal (JNum 5))"
    using w [rule_format, OF ws(1), THEN conjunct1, rule_format, OF ws(2)] by simp
  from 1 2 3 4 5 6 show ?thesis by simp
qed

section \<open>Single flight\<close>

lemma waiting_before_producer:
  assumes "inv s" "i < length (waiters s)" "waiters s ! i = (g, RememberGet key fallback ttl p)"
  shows "producer_calls p (sent s) = 0"
proof -
  from assms(2,3) have "(g, RememberGet key fallback ttl p) \<in> set (waiters s)" by (metis nth_mem)
  then have "p \<in> set (before_producer (waiters s))"
    by (force simp: before_producer_def)
  with assms(1) show ?thesis by (simp add: inv_def inv_core_def inv_producer_def)
qed

text \<open>
  Claim C1, as stated, fails where the key is cached: two calls made before anything
  settles share one promise (only two promises exist, the call's and the read's), it is
  fulfilled with the cached value, and the producer has been invoked not once but never.
\<close>

theorem cached_key_producer_never_invoked_counterexample:
  "producer_calls 0 (sent (run concurrent_hit init)) = 0
   \<and> sent (run concurrent_hit init) = [HttpPostBatch [OpGet ''K'']]
   \<and> promises (run concurrent_hit init) 0 = Fulfilled (PVal (JStr ''cached''))
   \<and> nextPid (run concurrent_hit init) = 2
   \<and> rememberPromises (run concurrent_hit init) ''K'' = None"
  by (simp add: eval_defs)

text \<open>
  Claim C1, amended. In every reachable state \<open>s\<close>: a call of \<^verbatim>\<open>remember\<close> for a key
  that has an entry returns the promise of the entry, which is pending, and changes
  nothing, so it invokes no producer and all such callers share one outcome, value or
  error; a call for a key without an entry registers a new promise. No sequence invokes
  its producer more than once: while it waits for its read it has not invoked it, it
  invokes it exactly once when the read yields \<^verbatim>\<open>null\<close>, and not at all when the read
  yields a value or fails. Whenever a sequence settles its promise (cached value, failed
  read, failed producer, written or failed write), the entry of its key is removed.
\<close>

theorem single_flight_remember:
  assumes "s = run es init"
  shows "(rememberPromises s key = Some p \<longrightarrow>
            remember key fallback ttl s = (p, s) \<and> promises s p = Pending)
       \<and> (rememberPromises s key = None \<longrightarrow>
            fst (remember key fallback ttl s) = nextPid s
          \<and> rememberPromises (snd (remember key fallback ttl s)) key = Some (nextPid s)
          \<and> producer_calls (nextPid s) (sent (snd (remember key fallback ttl s))) = 0)
       \<and> producer_calls q (sent s) \<le> 1
       \<and> (i < length (waiters s) \<and> waiters s ! i = (g, RememberGet key fallback ttl p) \<longrightarrow>
            rememberPromises s key = Some p
          \<and> producer_calls p (sent s) = 0
          \<and> (promises s g = Fulfilled (PVal Null) \<longrightarrow>
                 producer_calls p (sent (exec (Resume i) s)) = 1
               \<and> rememberPromises (exec (Resume i) s) key = Some p)
          \<and> (\<forall>cached. promises s g = Fulfilled cached \<and> cached \<noteq> PVal Null \<longrightarrow>
                 producer_calls p (sent (exec (Resume i) s)) = 0
               \<and> promises (exec (Resume i) s) p = Fulfilled cached
               \<and> rememberPromises (exec (Resume i) s) key = None)
          \<and> (\<forall>e. promises s g = Rejected e \<longrightarrow>
                 producer_calls p (sent (exec (Resume i) s)) = 0
               \<and> promises (exec (Resume i) s) p = Rejected e
               \<and> rememberPromises (exec (Resume i) s) key = None))
       \<and> (map_of (inflight s) x = Some (RememberFallback key ttl p) \<longrightarrow>
            (\<forall>e. promises (exec (Arrive x (Inl e)) s) p = Rejected e
               \<and> rememberPromises (exec (Arrive x (Inl e)) s) key = None))
       \<and> (i < length (waiters s) \<and> waiters s ! i = (g, RememberSet key v p)
            \<and> promises s g \<noteq> Pending \<longrightarrow>
            promises (exec (Resume i) s) p \<noteq> Pending
          \<and> rememberPromises (exec (Resume i) s) key = None)"
proof -
  have s: "inv s" unfolding assms by (rule inv_reachable)
  have 1: "remember key fallback ttl s = (p, s) \<and> promises s p = Pending"
    if "rememberPromises s key = Some p"
    using remember_join [OF that] registered_pending(1) [OF s that] by simp
  have 2: "fst (remember key fallback ttl s) = nextPid s
          \<and> rememberPromises (snd (remember key fallback ttl s)) key = Some (nextPid s)
          \<and> producer_calls (nextPid s) (sent (snd (remember key fallback ttl s))) = 0"
    if "rememberPromises s key = None"
    using remember_start [OF s that] by simp
  have 3: "producer_calls q (sent s) \<le> 1" by (rule producer_calls_bound [OF s])
  have 4: "rememberPromises s key = Some p
          \<and> producer_calls p (sent s) = 0
          \<and> (promises s g = Fulfilled (PVal Null) \<longrightarrow>
                 producer_calls p (sent (exec (Resume i) s)) = 1
               \<and> rememberPromises (exec (Resume i) s) key = Some p)
          \<and> (\<forall>cached. promises s g = Fulfilled cached \<and> cached \<noteq> PVal Null \<longrightarrow>
                 producer_calls p (sent (exec (Resume i) s)) = 0
               \<and> promises (exec (Resume i) s) p = Fulfilled cached
               \<and> rememberPromises (exec (Resume i) s) key = None)
          \<and> (\<forall>e. promises s g = Rejected e \<longrightarrow>
                 producer_calls p (sent (exec (Resume i) s)) = 0
               \<and> promises (exec (Resume i) s) p = Rejected e
               \<and> rememberPromises (exec (Resume i) s) key = None)"
    if h: "i < length (waiters s) \<and> waiters s ! i = (g, RememberGet key fallback ttl p)"
  proof -
    from h have a: "i < length (waiters s)" "waiters s ! i = (g, RememberGet key fallback ttl p)"
      by simp_all
    have r: "rememberPromises s key = Some p"
      by (rule waiting_remember_registered [OF s a]) simp
    note z = waiting_before_producer [OF s a]
    show ?thesis
      using r z remember_miss(5,7) [OF s a] remember_hit(1,2,4) [OF s a]
        remember_read_fails(1,2,4) [OF s a]
      by auto
  qed
  have 5: "\<forall>e. promises (exec (Arrive x (Inl e)) s) p = Rejected e
               \<and> rememberPromises (exec (Arrive x (Inl e)) s) key = None"
    if "map_of (inflight s) x = Some (RememberFallback key ttl p)"
    using remember_producer_fails(1,5) [OF s that] by simp
  have 6: "promises (exec (Resume i) s) p \<noteq> Pending
          \<and> rememberPromises (exec (Resume i) s) key = None"
    if h: "i < length (waiters s) \<and> waiters s ! i = (g, RememberSet key v p)
            \<and> promises s g \<noteq> Pending"
    using remember_written(1,4) [of s i g key v p] s h
    by (cases "promises s g") simp_all
  from 1 2 3 4 5 6 show ?thesis by blast
qed

theorem single_flight_remember_witness:
  "remember ''K'' 8 None (run [CallRemember ''K'' 7 (Some 60)] init)
     = (0, run [CallRemember ''K'' 7 (Some 60)] init)
   \<and> promises (run [CallRemember ''K'' 7 (Some 60)] init) 0 = Pending
   \<and> fst (remember ''K'' 7 (Some 60) (run [] init)) = 0
   \<and> producer_calls 0 (sent (run miss_write init)) \<le> 1
   \<and> producer_calls 0 (sent (run miss_read init)) = 0
   \<and> producer_calls 0 (sent (exec (Resume 0) (run miss_read init))) = 1
   \<and> producer_calls 0 (sent (exec (Resume 0) (run hit_read init))) = 0
   \<and> rememberPromises (exec (Resume 0) (run hit_read init)) ''K'' = None
   \<and> rememberPromises (exec (Arrive 1 (Inl computation_failed)) (run miss_produce init)) ''K'' = None
   \<and> rememberPromises (exec (Resume 0) (run miss_write init)) ''K'' = None"
proof -
  note a = single_flight_remember
    [where es = "[CallRemember ''K'' 7 (Some 60)]" and key = "''K''" and fallback = 8
       and ttl = None and p = 0, OF refl, THEN conjunct1]
  note b = single_flight_remember
    [where es = "[]" and key = "''K''" and fallback = 7
       and ttl = "Some 60", OF refl, THEN conjunct2, THEN conjunct1]
  note c = single_flight_remember
    [where es = miss_write and q = 0, OF refl, THEN conjunct2, THEN conjunct2, THEN conjunct1]
  note d = single_flight_remember
    [where es = miss_read and key = "''K''" and fallback = 7 and ttl = "Some 60"
       and i = 0 and g = 1 and p = 0, OF refl, THEN conjunct2, THEN conjunct2,
       THEN conjunct2, THEN conjunct1]
  note e = single_flight_remember
    [where es = hit_read and key = "''K''" and fallback = 7 and ttl = "Some 60"
       and i = 0 and g = 1 and p = 0, OF refl, THEN conjunct2, THEN conjunct2,
       THEN conjunct2, THEN conjunct1]
  note f = single_flight_remember
    [where es = miss_produce and key = "''K''" and ttl = "Some 60"
       and x = 1 and p = 0, OF refl, THEN conjunct2, THEN conjunct2,
       THEN conjunct2, THEN conjunct2, THEN conjunct1]
  note g = single_flight_remember
    [where es = miss_write and key = "''K''" and v = "JNum 5"
       and i = 0 and g = 2 and p = 0, OF refl, THEN conjunct2, THEN conjunct2,
       THEN conjunct2, THEN conjunct2, THEN conjunct2]
  have a': "rememberPromises (run [CallRemember ''K'' 7 (Some 60)] init) ''K'' = Some 0"
    by (simp add: eval_defs)
  have b': "rememberPromises (run [] init) ''K'' = None" "nextPid (run [] init) = 0"
    by (simp_all add: eval_defs)
  have d': "0 < length (waiters (run miss_read init))
           \<and> waiters (run miss_read init) ! 0 = (1, RememberGet ''K'' 7 (Some 60) 0)"
     "promises (run miss_read init) 1 = Fulfilled (PVal Null)"
    by (simp_all add: eval_defs)
  have e': "0 < length (waiters (run hit_read init))
           \<and> waiters (run hit_read init) ! 0 = (1, RememberGet ''K'' 7 (Some 60) 0)"
     "promises (run hit_read init) 1 = Fulfilled (PVal (JStr ''cached''))"
    by (simp_all add: eval_defs)
  have f': "map_of (inflight (run miss_produce init)) 1 = Some (RememberFallback ''K'' (Some 60) 0)"
    by (simp add: eval_defs)
  have g': "0 < length (waiters (run miss_write init))
           \<and> waiters (run miss_write init) ! 0 = (2, RememberSet ''K'' (JNum 5) 0)
           \<and> promises (run miss_write init) 2 \<noteq> Pending"
    by (simp_all add: eval_defs)
  from a a' have 1: "remember ''K'' 8 None (run [CallRemember ''K'' 7 (Some 60)] init)
     = (0, run [CallRemember ''K'' 7 (Some 60)] init)
   \<and> promises (run [CallRemember ''K'' 7 (Some 60)] init) 0 = Pending" by blast
  from b b' have 2: "fst (remember ''K'' 7 (Some 60) (run [] init)) = 0" by simp
  from d d' have 3: "producer_calls 0 (sent (run miss_read init)) = 0
     \<and> producer_calls 0 (sent (exec (Resume 0) (run miss_read init))) = 1" by blast
  from e e' have 4: "producer_calls 0 (sent (exec (Resume 0) (run hit_read init))) = 0
     \<and> rememberPromises (exec (Resume 0) (run hit_read init)) ''K'' = None" by blast
  from f f' have 5: "rememberPromises (exec (Arrive 1 (Inl computation_failed)) (run miss_produce init)) ''K'' = None" by blast
  from g g' have 6: "rememberPromises (exec (Resume 0) (run miss_write init)) ''K'' = None" by blast
  from 1 2 c 3 4 5 6 show ?thesis by blast
qed

section \<open>A producer that throws\<close>

lemma failing_producer_then_read_absent:
  assumes "map_of st key = None"
  shows "\<exists>s'. failing_producer_then_read key fallback ttl e st = Some (0, 2, s', st)
           \<and> promises s' 0 = Rejected e
           \<and> promises s' 2 = Fulfilled (PVal Null)
           \<and> sent s' = [HttpPostBatch [OpGet key], Producer fallback 0, HttpPostBatch [OpGet key]]"
  using assms by (simp add: eval_defs)

text \<open>
  Claim C7. In every reachable state, when the producer of a \<^verbatim>\<open>remember\<close> for \<open>key\<close>
  throws \<open>e\<close>, the promise of the call is rejected with \<open>e\<close>, and nothing is written:
  no request is sent, nothing is queued and no continuation is left that could queue a
  write. With a server whose table does not hold \<open>key\<close>: \<^verbatim>\<open>remember\<close> on a new client
  rejects with the producer's error, the client has sent the server two reads of \<open>key\<close>
  and no write, the table is as it was, and the plain read issued after the rejection
  yields \<^verbatim>\<open>null\<close>.
\<close>

theorem producer_failure_rejects_without_write:
  assumes "s = run es init"
  shows "(map_of (inflight s) x = Some (RememberFallback key ttl p) \<longrightarrow>
            promises (exec (Arrive x (Inl e)) s) p = Rejected e
          \<and> sent (exec (Arrive x (Inl e)) s) = sent s
          \<and> batchQueue (exec (Arrive x (Inl e)) s) = batchQueue s
          \<and> waiters (exec (Arrive x (Inl e)) s) = waiters s)
       \<and> (map_of st key = None \<longrightarrow>
            (\<exists>p' q s'. failing_producer_then_read key fallback ttl e st = Some (p', q, s', st)
               \<and> promises s' p' = Rejected e
               \<and> promises s' q = Fulfilled (PVal Null)
               \<and> sent s' = [HttpPostBatch [OpGet key], Producer fallback p',
                             HttpPostBatch [OpGet key]]))"
proof -
  have s: "inv s" unfolding assms by (rule inv_reachable)
  have 1: "promises (exec (Arrive x (Inl e)) s) p = Rejected e
          \<and> sent (exec (Arrive x (Inl e)) s) = sent s
          \<and> batchQueue (exec (Arrive x (Inl e)) s) = batchQueue s
          \<and> waiters (exec (Arrive x (Inl e)) s) = waiters s"
    if "map_of (inflight s) x = Some (RememberFallback key ttl p)"
    using remember_producer_fails(1-4) [OF s that] by simp
  have 2: "\<exists>p' q s'. failing_producer_then_read key fallback ttl e st = Some (p', q, s', st)
               \<and> promises s' p' = Rejected e
               \<and> promises s' q = Fulfilled (PVal Null)
               \<and> sent s' = [HttpPostBatch [OpGet key], Producer fallback p',
                             HttpPostBatch [OpGet key]]"
    if "map_of st key = None"
    using failing_producer_then_read_absent [OF that, of fallback ttl e] by blast
  from 1 2 show ?thesis by blast
qed

theorem producer_failure_rejects_without_write_witness:
  "promises (exec (Arrive 1 (Inl computation_failed)) (run miss_produce init)) 0
     = Rejected computation_failed
   \<and> sent (exec (Arrive 1 (Inl computation_failed)) (run miss_produce init))
     = [HttpPostBatch [OpGet ''K''], Producer 7 0]
   \<and> batchQueue (exec (Arrive 1 (Inl computation_failed)) (run miss_produce init)) = []
   \<and> waiters (exec (Arrive 1 (Inl computation_failed)) (run miss_produce init)) = []
   \<and> (\<exists>p' q s'. failing_producer_then_read ''K'' 7 (Some 60) computation_failed
                     [(''other'', JNum 1)] = Some (p', q, s', [(''other'', JNum 1)])
         \<and> promises s' p' = Rejected computation_failed
         \<and> promises s' q = Fulfilled (PVal Null)
         \<and> sent s' = [HttpPostBatch [OpGet ''K''], Producer 7 p', HttpPostBatch [OpGet ''K'']])"
proof -
  note a = producer_failure_rejects_without_write
    [where es = miss_produce and key = "''K''" and ttl = "Some 60" and x = 1 and p = 0
       and e = computation_failed, OF refl, THEN conjunct1]
  note b = producer_failure_rejects_without_write
    [where es = "[]" and key = "''K''" and ttl = "Some 60" and fallback = 7
       and e = computation_failed and st = "[(''other'', JNum 1)]", OF refl, THEN conjunct2]
  have a': "map_of (inflight (run miss_produce init)) 1 = Some (RememberFallback ''K'' (Some 60) 0)"
    "sent (run miss_produce init) = [HttpPostBatch [OpGet ''K''], Producer 7 0]"
    "batchQueue (run miss_produce init) = []"
    "waiters (run miss_produce init) = []"
    by (simp_all add: eval_defs)
  have b': "map_of [(''other'', JNum 1)] ''K'' = None" by simp
  from a a' have 1: "promises (exec (Arrive 1 (Inl computation_failed)) (run miss_produce init)) 0
     = Rejected computation_failed
   \<and> sent (exec (Arrive 1 (Inl computation_failed)) (run miss_produce init))
     = [HttpPostBatch [OpGet ''K''], Producer 7 0]
   \<and> batchQueue (exec (Arrive 1 (Inl computation_failed)) (run miss_produce init)) = []
   \<and> waiters (exec (Arrive 1 (Inl computation_failed)) (run miss_produce init)) = []"
    by simp
  note 2 = b [THEN mp, OF b']
  show ?thesis by (rule conjI [OF 1 [THEN conjunct1] conjI [OF 1 [THEN conjunct2, THEN conjunct1]
    conjI [OF 1 [THEN conjunct2, THEN conjunct2, THEN conjunct1]
      conjI [OF 1 [THEN conjunct2, THEN conjunct2, THEN conjunct2] 2]]]])
qed

section \<open>How often request fetches\<close>

lemma fetches_append [simp]: "fetches (xs @ ys) = fetches xs + fetches ys"
  by (simp add: fetches_def)

lemma fetches_retry_steps [simp]: "fetches (retry_steps cfg k n) = n"
  by (induction n arbitrary: k) simp_all






section \<open>One post per flush, and the retries below it\<close>




section \<open>What a handle receives\<close>

lemma null_converting_subset: "set (null_converting r) \<subseteq> set (resolver_pids r)"
  by (induction r) auto

lemma call_resolve_value:
  assumes "distinct (resolver_pids r)" "\<forall>q \<in> set (resolver_pids r). promises s q = Pending"
    and "p \<in> set (resolver_pids r)"
  shows "promises (call_resolve r v s) p
           = Fulfilled (PVal (if v = Undefined \<and> p \<in> set (null_converting r) then Null else v))"
  using assms
proof (induction r)
  case (ResolveBoth r q)
  from ResolveBoth.prems(1) have d: "distinct (resolver_pids r)" and q: "q \<notin> set (resolver_pids r)"
    by simp_all
  from ResolveBoth.prems(2) have pend: "\<forall>q \<in> set (resolver_pids r). promises s q = Pending"
    and pq: "promises s q = Pending" by simp_all
  show ?case
  proof (cases "p = q")
    case True
    from q pq have "promises (call_resolve r v s) q = Pending"
      by (simp add: promises_call_resolve_other)
    moreover from q null_converting_subset [of r] have "q \<notin> set (null_converting r)" by blast
    ultimately show ?thesis using True by (simp add: promises_settle)
  next
    case False
    with ResolveBoth.prems(3) have "p \<in> set (resolver_pids r)" by simp
    from ResolveBoth.IH [OF d pend this] False show ?thesis by (simp add: promises_settle)
  qed
qed (simp_all add: promises_settle)

section \<open>Order and positions of a batch\<close>

text \<open>
  Claim C3. The calls of a cycle build the queue the specification describes, in call
  order, with a read of a key already queued adding nothing; one cycle of calls on a new
  client followed by the flush makes exactly one exchange, whose operations array is
  that queue in that order, and leaves the queue empty. A flush sends the operations of
  the queued items in queue order and keeps the items as its snapshot. When the response
  arrives (a results array no longer than the batch and without \<^verbatim>\<open>null\<close> entries),
  every handle of the operation at position \<open>i\<close> is fulfilled from the result at
  position \<open>i\<close>: with the value of a read result, with \<^verbatim>\<open>undefined\<close> for the result
  of a write or a remove, where the handle of a first reader is given \<^verbatim>\<open>null\<close> in
  place of \<^verbatim>\<open>undefined\<close>; no other promise changes.
\<close>

theorem batch_order_and_positional_delivery:
  "(list_all is_queue_call calls \<longrightarrow>
      map operation (batchQueue (run calls s))
        = foldl spec_enqueue (map operation (batchQueue s)) calls)
   \<and> (list_all is_queue_call calls \<and> calls \<noteq> [] \<longrightarrow>
        sent (run (calls @ [Microtask]) init) = [HttpPostBatch (spec_batch calls)]
      \<and> inflight (run (calls @ [Microtask]) init)
          = [(0, FlushPost (batchQueue (run calls init)))]
      \<and> map operation (batchQueue (run calls init)) = spec_batch calls
      \<and> batchQueue (run (calls @ [Microtask]) init) = [])
   \<and> (batchQueue s \<noteq> [] \<longrightarrow>
        sent (flushBatch s) = sent s @ [HttpPostBatch (map operation (batchQueue s))]
      \<and> inflight (flushBatch s) = inflight s @ [(length (sent s), FlushPost (batchQueue s))]
      \<and> batchQueue (flushBatch s) = [])
   \<and> (map_of (inflight (run es init)) x = Some (FlushPost queue)
      \<and> getProp body ''results'' = Inr (JArr rs)
      \<and> length rs \<le> length queue
      \<and> (\<forall>r \<in> set rs. r \<noteq> Undefined \<and> r \<noteq> Null) \<longrightarrow>
        (\<forall>i < length rs. \<forall>p \<in> set (handles (queue ! i)).
            (\<forall>v. getProp (rs ! i) ''op'' = Inr (JStr ''get'')
                 \<and> getProp (rs ! i) ''value'' = Inr v \<longrightarrow>
               promises (exec (Arrive x (Inr body)) (run es init)) p
                 = Fulfilled (PVal (if v = Undefined
                                      \<and> p \<in> set (null_converting (resolve (queue ! i)))
                                    then Null else v)))
          \<and> (getProp (rs ! i) ''op'' = Inr (JStr ''set'')
               \<or> getProp (rs ! i) ''op'' = Inr (JStr ''delete'') \<longrightarrow>
               promises (exec (Arrive x (Inr body)) (run es init)) p
                 = Fulfilled (PVal (if p \<in> set (null_converting (resolve (queue ! i)))
                                    then Null else Undefined))))
      \<and> (\<forall>p. (\<forall>i < length rs. p \<notin> set (handles (queue ! i))) \<longrightarrow>
            promises (exec (Arrive x (Inr body)) (run es init)) p = promises (run es init) p))"
proof -
  have 1: "map operation (batchQueue (run calls s))
        = foldl spec_enqueue (map operation (batchQueue s)) calls"
    if "list_all is_queue_call calls"
    using that by (rule queue_calls_run(1))
  have 2: "sent (run (calls @ [Microtask]) init) = [HttpPostBatch (spec_batch calls)]
      \<and> inflight (run (calls @ [Microtask]) init)
          = [(0, FlushPost (batchQueue (run calls init)))]
      \<and> map operation (batchQueue (run calls init)) = spec_batch calls
      \<and> batchQueue (run (calls @ [Microtask]) init) = []"
    if "list_all is_queue_call calls \<and> calls \<noteq> []"
    using one_cycle_one_batch [of calls] that by simp
  have 3: "sent (flushBatch s) = sent s @ [HttpPostBatch (map operation (batchQueue s))]
      \<and> inflight (flushBatch s) = inflight s @ [(length (sent s), FlushPost (batchQueue s))]
      \<and> batchQueue (flushBatch s) = []"
    if "batchQueue s \<noteq> []"
    using that by (simp add: flushBatch_def prim_defs)
  have 4: "(\<forall>i < length rs. \<forall>p \<in> set (handles (queue ! i)).
            (\<forall>v. getProp (rs ! i) ''op'' = Inr (JStr ''get'')
                 \<and> getProp (rs ! i) ''value'' = Inr v \<longrightarrow>
               promises (exec (Arrive x (Inr body)) (run es init)) p
                 = Fulfilled (PVal (if v = Undefined
                                      \<and> p \<in> set (null_converting (resolve (queue ! i)))
                                    then Null else v)))
          \<and> (getProp (rs ! i) ''op'' = Inr (JStr ''set'')
               \<or> getProp (rs ! i) ''op'' = Inr (JStr ''delete'') \<longrightarrow>
               promises (exec (Arrive x (Inr body)) (run es init)) p
                 = Fulfilled (PVal (if p \<in> set (null_converting (resolve (queue ! i)))
                                    then Null else Undefined))))
      \<and> (\<forall>p. (\<forall>i < length rs. p \<notin> set (handles (queue ! i))) \<longrightarrow>
            promises (exec (Arrive x (Inr body)) (run es init)) p = promises (run es init) p)"
    if h: "map_of (inflight (run es init)) x = Some (FlushPost queue)
      \<and> getProp body ''results'' = Inr (JArr rs)
      \<and> length rs \<le> length queue
      \<and> (\<forall>r \<in> set rs. r \<noteq> Undefined \<and> r \<noteq> Null)"
  proof -
    from h have a: "map_of (inflight (run es init)) x = Some (FlushPost queue)"
      "getProp body ''results'' = Inr (JArr rs)" "length rs \<le> length queue"
      "\<forall>r \<in> set rs. r \<noteq> Undefined \<and> r \<noteq> Null" by simp_all
    note pos = flush_success_positional [OF core_reachable a]
    note fl = flush_in_flight(1,2) [OF core_reachable a(1)]
    have val: "promises (call_resolve (resolve (queue ! i)) w (run es init)) p
            = Fulfilled (PVal (if w = Undefined \<and> p \<in> set (null_converting (resolve (queue ! i)))
                               then Null else w))"
      if "i < length rs" "p \<in> set (handles (queue ! i))" for i p w
    proof -
      from that(1) a(3) have m: "queue ! i \<in> set queue" by simp
      then have sub: "set (handles (queue ! i)) \<subseteq> set (queue_pids queue)"
        by (auto simp: queue_pids_def)
      from m fl(1) have "distinct (handles (queue ! i))"
        by (auto simp: queue_pids_def distinct_concat_iff)
      moreover from sub fl(2) have "\<forall>q \<in> set (handles (queue ! i)). promises (run es init) q = Pending"
        by blast
      ultimately show ?thesis
        using that(2) by (simp add: handles_def call_resolve_value)
    qed
    have "promises (exec (Arrive x (Inr body)) (run es init)) p
            = Fulfilled (PVal (if v = Undefined \<and> p \<in> set (null_converting (resolve (queue ! i)))
                               then Null else v))"
      if "i < length rs" "p \<in> set (handles (queue ! i))"
        "getProp (rs ! i) ''op'' = Inr (JStr ''get'')" "getProp (rs ! i) ''value'' = Inr v"
      for i p v
      using pos(1) that a(3) val [OF that(1,2), of v]
      by (simp add: deliver_result_by_op [OF _ that(3)])
    moreover have "promises (exec (Arrive x (Inr body)) (run es init)) p
            = Fulfilled (PVal (if p \<in> set (null_converting (resolve (queue ! i)))
                               then Null else Undefined))"
      if "i < length rs" "p \<in> set (handles (queue ! i))"
        "getProp (rs ! i) ''op'' = Inr (JStr ''set'')
           \<or> getProp (rs ! i) ''op'' = Inr (JStr ''delete'')"
      for i p
      using pos(1) that a(3) val [OF that(1,2), of Undefined]
      by (auto simp: deliver_result_by_op)
    moreover have "\<forall>p. (\<forall>i < length rs. p \<notin> set (handles (queue ! i))) \<longrightarrow>
            promises (exec (Arrive x (Inr body)) (run es init)) p = promises (run es init) p"
      using pos(2) by simp
    ultimately show ?thesis by blast
  qed
  from 1 2 3 4 show ?thesis by blast
qed

theorem batch_order_and_positional_delivery_witness:
  "map operation (batchQueue (run [CallSet ''a'' (JNum 1) None, CallGet ''b'', CallGet ''b'',
                                   CallDelete ''c''] init))
     = [OpSet ''a'' (JNum 1) None, OpGet ''b'', OpDelete ''c'']
   \<and> sent (run ([CallSet ''a'' (JNum 1) None, CallGet ''b'', CallGet ''b'', CallDelete ''c'']
                 @ [Microtask]) init)
     = [HttpPostBatch [OpSet ''a'' (JNum 1) None, OpGet ''b'', OpDelete ''c'']]
   \<and> sent (flushBatch (run [CallGet ''b''] init)) = [HttpPostBatch [OpGet ''b'']]
   \<and> promises (exec (Arrive 0 (Inr (batch_response
           [set_result ''a'' True, get_result ''b'' (JNum 2), delete_result ''c'' True])))
         (run [CallSet ''a'' (JNum 1) None, CallGet ''b'', CallGet ''b'', CallDelete ''c'',
               Microtask] init)) 0
     = Fulfilled (PVal Undefined)
   \<and> promises (exec (Arrive 0 (Inr (batch_response
           [set_result ''a'' True, get_result ''b'' (JNum 2), delete_result ''c'' True])))
         (run [CallSet ''a'' (JNum 1) None, CallGet ''b'', CallGet ''b'', CallDelete ''c'',
               Microtask] init)) 1
     = Fulfilled (PVal (JNum 2))
   \<and> promises (exec (Arrive 0 (Inr (batch_response
           [set_result ''a'' True, get_result ''b'' (JNum 2), delete_result ''c'' True])))
         (run [CallSet ''a'' (JNum 1) None, CallGet ''b'', CallGet ''b'', CallDelete ''c'',
               Microtask] init)) 2
     = Fulfilled (PVal (JNum 2))
   \<and> promises (exec (Arrive 0 (Inr (batch_response
           [set_result ''a'' True, get_result ''b'' (JNum 2), delete_result ''c'' True])))
         (run [CallSet ''a'' (JNum 1) None, CallGet ''b'', CallGet ''b'', CallDelete ''c'',
               Microtask] init)) 3
     = Fulfilled (PVal Undefined)
   \<and> promises (exec (Arrive 0 (Inr (batch_response
           [set_result ''a'' True, get_result ''b'' (JNum 2), delete_result ''c'' True])))
         (run [CallSet ''a'' (JNum 1) None, CallGet ''b'', CallGet ''b'', CallDelete ''c'',
               Microtask] init)) 4
     = Pending"
proof -
  let ?calls = "[CallSet ''a'' (JNum 1) None, CallGet ''b'', CallGet ''b'', CallDelete ''c'']"
  let ?es = "[CallSet ''a'' (JNum 1) None, CallGet ''b'', CallGet ''b'', CallDelete ''c'',
              Microtask]"
  let ?queue = "[\<lparr>operation = OpSet ''a'' (JNum 1) None, resolve = Resolve 0, reject = Reject 0\<rparr>,
                 \<lparr>operation = OpGet ''b'', resolve = ResolveBoth (ResolveNullConv 1) 2,
                   reject = RejectBoth (Reject 1) 2\<rparr>,
                 \<lparr>operation = OpDelete ''c'', resolve = Resolve 3, reject = Reject 3\<rparr>]"
  let ?rs = "[set_result ''a'' True, get_result ''b'' (JNum 2), delete_result ''c'' True]"
  let ?body = "batch_response ?rs"
  let ?s' = "exec (Arrive 0 (Inr ?body)) (run ?es init)"
  note t = batch_order_and_positional_delivery
    [of ?calls init ?es 0 ?queue ?body ?rs, THEN conjunct1]
    batch_order_and_positional_delivery
    [of ?calls init ?es 0 ?queue ?body ?rs, THEN conjunct2, THEN conjunct1]
    batch_order_and_positional_delivery
    [of ?calls "run [CallGet ''b''] init" ?es 0 ?queue ?body ?rs,
     THEN conjunct2, THEN conjunct2, THEN conjunct1]
    batch_order_and_positional_delivery
    [of ?calls init ?es 0 ?queue ?body ?rs, THEN conjunct2, THEN conjunct2, THEN conjunct2]
  have c: "list_all is_queue_call ?calls" "?calls \<noteq> []" by simp_all
  have a: "map operation (batchQueue (run ?calls init))
     = [OpSet ''a'' (JNum 1) None, OpGet ''b'', OpDelete ''c'']"
    using t(1) c by (simp add: init_def)
  have b: "sent (run (?calls @ [Microtask]) init)
     = [HttpPostBatch [OpSet ''a'' (JNum 1) None, OpGet ''b'', OpDelete ''c'']]"
    using t(2) c by (simp add: spec_batch_def)
  have f: "sent (flushBatch (run [CallGet ''b''] init)) = [HttpPostBatch [OpGet ''b'']]"
    using t(3) by (simp add: eval_defs)
  have q: "map_of (inflight (run ?es init)) 0 = Some (FlushPost ?queue)"
    by (simp add: eval_defs)
  have r: "getProp ?body ''results'' = Inr (JArr ?rs)" "length ?rs \<le> length ?queue"
    "\<forall>r \<in> set ?rs. r \<noteq> Undefined \<and> r \<noteq> Null"
    by (simp_all add: batch_response_def set_result_def get_result_def delete_result_def)
  note d = t(4) [rule_format, OF conjI [OF q conjI [OF r(1) conjI [OF r(2) r(3)]]]]
  have p0: "promises (run ?es init) = (\<lambda>p. Pending)" by (simp add: eval_defs)
  have 0: "promises ?s' 0 = Fulfilled (PVal Undefined)"
    using d [THEN conjunct1, rule_format, of 0 0, THEN conjunct2]
    by (simp add: handles_def set_result_def)
  have 1: "promises ?s' 1 = Fulfilled (PVal (JNum 2))"
    using d [THEN conjunct1, rule_format, of 1 1, THEN conjunct1, rule_format, of "JNum 2"]
    by (simp add: handles_def get_result_def)
  have 2: "promises ?s' 2 = Fulfilled (PVal (JNum 2))"
    using d [THEN conjunct1, rule_format, of 1 2, THEN conjunct1, rule_format, of "JNum 2"]
    by (simp add: handles_def get_result_def)
  have 3: "promises ?s' 3 = Fulfilled (PVal Undefined)"
    using d [THEN conjunct1, rule_format, of 2 3, THEN conjunct2]
    by (simp add: handles_def delete_result_def)
  have h: "\<forall>i < length ?rs. 4 \<notin> set (handles (?queue ! i))"
    by (auto simp: handles_def less_Suc_eq)
  have "promises ?s' 4 = promises (run ?es init) 4"
    using d [THEN conjunct2, rule_format, of 4] h by blast
  then have 4: "promises ?s' 4 = Pending" by (simp add: p0)
  from a b f 0 1 2 3 4 show ?thesis by simp
qed

section \<open>The steps of rememberAll\<close>








subsection \<open>What getKey returns and throws\<close>





section \<open>rememberAll with a freshness marker\<close>





section \<open>The marker in the scan\<close>








section \<open>One read of a key in a queue\<close>

lemma batchQueue_settle [simp]: "batchQueue (settle p r s) = batchQueue s"
  by (simp add: settle_def)

lemma batchQueue_resume: "batchQueue (resume k out s) = batchQueue s"
  by (cases k; cases out)
     (simp_all add: remember_finish_def rememberAll_finish_def await_ext_def)

lemma reads_set_op:
  "count_list (map operation (batchQueue (snd (set_op k v t s)))) (OpGet k')
     = count_list (map operation (batchQueue s)) (OpGet k')"
  by (rule set_op_effect [of k v t s]) simp

lemma reads_delete_op:
  "count_list (map operation (batchQueue (snd (delete_op k s)))) (OpGet k')
     = count_list (map operation (batchQueue s)) (OpGet k')"
  by (rule delete_op_effect [of k s]) simp

lemma reads_resume_ext:
  "count_list (map operation (batchQueue (resume_ext k out s))) (OpGet k')
     = count_list (map operation (batchQueue s)) (OpGet k')"
proof (cases k)
  case (FlushPost queue)
  then show ?thesis
    using heap_only_fields(1) [OF flushBatch_resume_heap_only [of queue out s]] by simp
next
  case (RememberFallback key ttl promise)
  then show ?thesis
    using reads_set_op [of key _ ttl s k']
    by (cases out)
       (simp_all add: remember_finish_def case_prod_beta await_promise_def)
next
  case (RememberAllScan prefix getKey promise)
  then show ?thesis
    by (cases out) (simp_all add: rememberAll_finish_def split: sum.splits)
next
  case (RememberAllFallback prefix getKey ttl listTTL promise)
  then show ?thesis
    by (cases out)
       (simp_all add: rememberAll_finish_def await_ext_def split: sum.splits jsval.splits)
next
  case (RememberAllBatch prefix items getKey listTTL promise)
  then show ?thesis
    using reads_set_op [of "listMarkerKey prefix" "JBool True" _ s k']
    by (cases out)
       (simp_all add: rememberAll_finish_def case_prod_beta await_promise_def
          split: sum.splits option.splits)
qed

lemma batchQueue_new_promise [simp]: "batchQueue (snd (new_promise s)) = batchQueue s"
  by (simp add: new_promise_def)

lemma batchQueue_exists_op: "batchQueue (snd (exists_op k s)) = batchQueue (snd (get_op k s))"
  by (simp add: exists_op_def case_prod_beta new_promise_def await_promise_def)

lemma reads_once_step:
  assumes "\<forall>k. count_list (map operation (batchQueue s)) (OpGet k) \<le> 1"
  shows "count_list (map operation (batchQueue (exec ev s))) (OpGet k) \<le> 1"
proof (cases ev)
  case (CallSet key v ttl)
  with assms show ?thesis by (simp add: reads_set_op)
next
  case (CallGet key)
  with assms one_read_per_key(1) [of s k key] show ?thesis by simp
next
  case (CallDelete key)
  with assms show ?thesis by (simp add: reads_delete_op)
next
  case (CallExists key)
  with assms one_read_per_key(1) [of s k key] show ?thesis by (simp add: batchQueue_exists_op)
next
  case (CallRemember key fallback ttl)
  have "count_list (map operation (batchQueue (snd (new_promise s)))) (OpGet k) \<le> 1"
    using assms by simp
  from one_read_per_key(1) [OF this, of key] CallRemember assms show ?thesis
    by (simp add: remember_def case_prod_beta await_promise_def split: option.splits)
next
  case (CallRememberAll prefix fallback getKey ttl listTTL)
  have "count_list (map operation (batchQueue (snd (new_promise s)))) (OpGet k) \<le> 1"
    using assms by simp
  from one_read_per_key(1) [OF this, of "listMarkerKey prefix"] CallRememberAll assms
  show ?thesis
    by (simp add: rememberAll_def case_prod_beta await_promise_def await_ext_def
        batchQueue_exists_op split: option.splits)
next
  case Microtask
  with assms show ?thesis by (simp add: flushBatch_def prim_defs)
next
  case (Resume i)
  with assms show ?thesis
    by (simp add: run_waiter_def case_prod_beta batchQueue_resume)
next
  case (Arrive x out)
  with assms show ?thesis
    by (simp add: arrive_def reads_resume_ext split: option.splits)
qed

lemma reads_once_run:
  assumes "\<forall>k. count_list (map operation (batchQueue s)) (OpGet k) \<le> 1"
  shows "count_list (map operation (batchQueue (run es s))) (OpGet k) \<le> 1"
  using assms
proof (induction es arbitrary: s k)
  case Nil
  then show ?case by (simp add: run_def)
next
  case (Cons ev es)
  have "\<forall>k. count_list (map operation (batchQueue (exec ev s))) (OpGet k) \<le> 1"
    using reads_once_step [OF Cons.prems] by blast
  from Cons.IH [OF this] show ?case by (simp add: run_def)
qed

lemma reads_once_reachable:
  "count_list (map operation (batchQueue (run es init))) (OpGet k) \<le> 1"
  by (rule reads_once_run) (simp add: init_def)

section \<open>The callers of a collapsed read\<close>

lemma get_op_handle:
  shows "\<exists>i < length (batchQueue (snd (get_op k s))).
           operation (batchQueue (snd (get_op k s)) ! i) = OpGet k
         \<and> fst (get_op k s) \<in> set (handles (batchQueue (snd (get_op k s)) ! i))"
    and "\<forall>j < length (batchQueue s).
           operation (batchQueue (snd (get_op k s)) ! j) = operation (batchQueue s ! j)
         \<and> set (handles (batchQueue s ! j))
             \<subseteq> set (handles (batchQueue (snd (get_op k s)) ! j))"
proof -
  let ?q = "batchQueue s"
  have "(\<exists>i < length (batchQueue (snd (get_op k s))).
           operation (batchQueue (snd (get_op k s)) ! i) = OpGet k
         \<and> fst (get_op k s) \<in> set (handles (batchQueue (snd (get_op k s)) ! i)))
      \<and> (\<forall>j < length (batchQueue s).
           operation (batchQueue (snd (get_op k s)) ! j) = operation (batchQueue s ! j)
         \<and> set (handles (batchQueue s ! j))
             \<subseteq> set (handles (batchQueue (snd (get_op k s)) ! j)))"
  proof (cases "find_index (is_get_for k) ?q")
    case None
    then have g: "get_op k s = (nextPid s,
        s\<lparr>batchQueue := ?q @ [\<lparr>operation = OpGet k, resolve = ResolveNullConv (nextPid s),
                                 reject = Reject (nextPid s)\<rparr>],
          batchScheduled := True, nextPid := Suc (nextPid s)\<rparr>)"
      by (simp add: get_op_def prim_defs)
    show ?thesis
      unfolding g by (auto simp: handles_def nth_append intro!: exI [of _ "length ?q"])
  next
    case (Some i)
    let ?item = "(?q ! i)\<lparr>resolve := ResolveBoth (resolve (?q ! i)) (nextPid s),
                           reject := RejectBoth (reject (?q ! i)) (nextPid s)\<rparr>"
    from find_index_Some [OF Some] have i: "i < length ?q" and P: "is_get_for k (?q ! i)"
      by auto
    from Some have g: "get_op k s = (nextPid s,
        s\<lparr>batchQueue := ?q[i := ?item], batchScheduled := batchScheduled s,
          nextPid := Suc (nextPid s)\<rparr>)"
      by (simp add: get_op_def prim_defs)
    from P have o: "operation (?q ! i) = OpGet k" by (simp add: is_get_for_iff)
    show ?thesis
      unfolding g using i o
      by (auto simp: handles_def nth_list_update intro!: exI [of _ i])
  qed
  then show "\<exists>i < length (batchQueue (snd (get_op k s))).
           operation (batchQueue (snd (get_op k s)) ! i) = OpGet k
         \<and> fst (get_op k s) \<in> set (handles (batchQueue (snd (get_op k s)) ! i))"
    and "\<forall>j < length (batchQueue s).
           operation (batchQueue (snd (get_op k s)) ! j) = operation (batchQueue s ! j)
         \<and> set (handles (batchQueue s ! j))
             \<subseteq> set (handles (batchQueue (snd (get_op k s)) ! j))"
    by blast+
qed

subsection \<open>What the batch handler answers\<close>

lemma store_apply_defined:
  assumes "store_apply oper st = Some (r, st')" "Undefined \<notin> snd ` set st"
  shows "Undefined \<notin> snd ` set st'" "r \<noteq> Undefined" "r \<noteq> Null"
  using assms
  by (cases oper; auto simp: store_put_def split: if_splits)+

lemma store_results_defined:
  assumes "store_results ops st = (res, st')" "Undefined \<notin> snd ` set st"
  shows "Undefined \<notin> snd ` set st'"
  using assms
proof (induction ops arbitrary: st res st')
  case (Cons oper rest)
  show ?case
  proof (cases "store_apply oper st")
    case None
    with Cons.prems show ?thesis by simp
  next
    case (Some a)
    obtain r st1 where a: "a = (r, st1)" by (cases a)
    obtain res2 st2 where r2: "store_results rest st1 = (res2, st2)"
      by (cases "store_results rest st1")
    from store_apply_defined(1) [OF Some [unfolded a] Cons.prems(2)]
    have "Undefined \<notin> snd ` set st1" .
    from Cons.IH [OF r2 this] have "Undefined \<notin> snd ` set st2" .
    moreover from Cons.prems(1) Some a r2 have "st' = st2"
      by (cases res2) auto
    ultimately show ?thesis by simp
  qed
qed simp

lemma store_results_read:
  assumes "store_results ops st = (Some rs, st')"
  shows "length rs = length ops"
    and "\<forall>r \<in> set rs. r \<noteq> Undefined \<and> r \<noteq> Null"
    and "i < length ops \<Longrightarrow> ops ! i = OpGet k \<Longrightarrow>
           rs ! i = JObj [(''op'', JStr ''get''), (''key'', JStr k),
                          (''value'', case map_of (snd (store_results (take i ops) st)) k of
                                        Some v \<Rightarrow> v | None \<Rightarrow> Null)]"
proof -
  have "length rs = length ops \<and> (\<forall>r \<in> set rs. r \<noteq> Undefined \<and> r \<noteq> Null)
      \<and> (i < length ops \<longrightarrow> ops ! i = OpGet k \<longrightarrow>
           rs ! i = JObj [(''op'', JStr ''get''), (''key'', JStr k),
                          (''value'', case map_of (snd (store_results (take i ops) st)) k of
                                        Some v \<Rightarrow> v | None \<Rightarrow> Null)])"
    using assms
  proof (induction ops arbitrary: st rs st' i)
    case Nil
    then show ?case by simp
  next
    case (Cons oper rest)
    from Cons.prems obtain r st1 where a: "store_apply oper st = Some (r, st1)"
      by (cases "store_apply oper st") auto
    with Cons.prems obtain rs2 where r2: "store_results rest st1 = (Some rs2, st')"
      and rs: "rs = r # rs2"
      by (cases "store_results rest st1"; cases "fst (store_results rest st1)") auto
    have r: "r \<noteq> Undefined \<and> r \<noteq> Null" using a by (cases oper) (auto split: if_splits)
    show ?case
    proof (cases i)
      case 0
      from Cons.IH [OF r2, of 0] r rs a show ?thesis
        unfolding 0 by (cases oper) (auto split: if_splits)
    next
      case (Suc i')
      from Cons.IH [OF r2, of i'] r rs a r2 show ?thesis
        unfolding Suc by (auto simp: case_prod_beta split: option.splits)
    qed
  qed
  then show "length rs = length ops"
    and "\<forall>r \<in> set rs. r \<noteq> Undefined \<and> r \<noteq> Null"
    and "i < length ops \<Longrightarrow> ops ! i = OpGet k \<Longrightarrow>
           rs ! i = JObj [(''op'', JStr ''get''), (''key'', JStr k),
                          (''value'', case map_of (snd (store_results (take i ops) st)) k of
                                        Some v \<Rightarrow> v | None \<Rightarrow> Null)]"
    by blast+
qed

lemma read_result_delivered:
  assumes "inv_core s" "map_of (inflight s) x = Some (FlushPost queue)"
    and "getProp body ''results'' = Inr (JArr rs)" "length rs \<le> length queue"
    and "\<forall>r \<in> set rs. r \<noteq> Undefined \<and> r \<noteq> Null"
    and "i < length rs" "getProp (rs ! i) ''op'' = Inr (JStr ''get'')"
    and "getProp (rs ! i) ''value'' = Inr v" "p \<in> set (handles (queue ! i))"
  shows "promises (exec (Arrive x (Inr body)) s) p
           = Fulfilled (PVal (if v = Undefined \<and> p \<in> set (null_converting (resolve (queue ! i)))
                              then Null else v))"
proof -
  note pos = flush_success_positional [OF assms(1-5)]
  note fl = flush_in_flight(1,2) [OF assms(1,2)]
  from assms(4,6) have lt: "i < length queue" by simp
  then have m: "queue ! i \<in> set queue" by simp
  then have sub: "set (handles (queue ! i)) \<subseteq> set (queue_pids queue)"
    by (auto simp: queue_pids_def)
  from m fl(1) have d: "distinct (handles (queue ! i))"
    by (auto simp: queue_pids_def distinct_concat_iff)
  from sub fl(2) have pend: "\<forall>q \<in> set (handles (queue ! i)). promises s q = Pending"
    by blast
  have "promises (exec (Arrive x (Inr body)) s) p
          = promises (call_resolve (resolve (queue ! i)) v s) p"
    using pos(1) assms(6,8,9) lt by (simp add: deliver_result_by_op [OF _ assms(7)])
  also have "\<dots> = Fulfilled (PVal (if v = Undefined
                       \<and> p \<in> set (null_converting (resolve (queue ! i))) then Null else v))"
    using d pend assms(9) by (simp add: handles_def call_resolve_value)
  finally show ?thesis .
qed

text \<open>
  Claim C4. In every reachable state the queue holds at most one read of a key, and after
  \<^verbatim>\<open>get(k)\<close> exactly one; the promise \<^verbatim>\<open>get(k)\<close> returns is a handle of that read,
  and the handles of every queued operation stay attached to it. The flush sends the
  operations of the queue, so one read of the key, and keeps the queue as its snapshot.
  When the answer carries a value for the read, as every answer of the batch handler does
  (JSON has no \<^verbatim>\<open>undefined\<close>), every handle of the read, the first caller's and every
  collapsed caller's, is fulfilled with that value. Answered by the batch handler from a
  table, all of them are fulfilled with what the table holds under the key when the read
  is reached, and with \<^verbatim>\<open>null\<close> when it holds nothing.
\<close>

theorem collapsed_reads_share_one_result:
  assumes "s = run es init"
  shows "count_list (map operation (batchQueue s)) (OpGet k) \<le> 1
       \<and> count_list (map operation (batchQueue (snd (get_op k s)))) (OpGet k) = 1
       \<and> (\<exists>i < length (batchQueue (snd (get_op k s))).
             operation (batchQueue (snd (get_op k s)) ! i) = OpGet k
           \<and> fst (get_op k s) \<in> set (handles (batchQueue (snd (get_op k s)) ! i)))
       \<and> (\<forall>j < length (batchQueue s).
             operation (batchQueue (snd (get_op k s)) ! j) = operation (batchQueue s ! j)
           \<and> set (handles (batchQueue s ! j))
               \<subseteq> set (handles (batchQueue (snd (get_op k s)) ! j)))
       \<and> (batchQueue s \<noteq> [] \<longrightarrow>
             sent (flushBatch s) = sent s @ [HttpPostBatch (map operation (batchQueue s))]
           \<and> map_of (inflight (flushBatch s)) (length (sent s)) = Some (FlushPost (batchQueue s)))
       \<and> (map_of (inflight s) x = Some (FlushPost queue)
            \<and> getProp body ''results'' = Inr (JArr rs)
            \<and> length rs \<le> length queue
            \<and> (\<forall>r \<in> set rs. r \<noteq> Undefined \<and> r \<noteq> Null) \<longrightarrow>
             (\<forall>i < length rs. \<forall>v.
                 getProp (rs ! i) ''op'' = Inr (JStr ''get'')
                 \<and> getProp (rs ! i) ''value'' = Inr v \<and> v \<noteq> Undefined \<longrightarrow>
                 (\<forall>p \<in> set (handles (queue ! i)).
                     promises (exec (Arrive x (Inr body)) s) p = Fulfilled (PVal v))))
       \<and> (map_of (inflight s) x = Some (FlushPost queue)
            \<and> store_batch (map operation queue) st = (Some answer, st')
            \<and> Undefined \<notin> snd ` set st \<longrightarrow>
             (\<forall>i < length queue. \<forall>key. operation (queue ! i) = OpGet key \<longrightarrow>
                 (\<forall>p \<in> set (handles (queue ! i)).
                     promises (exec (Arrive x (Inr answer)) s) p
                       = Fulfilled (PVal
                           (case map_of (snd (store_results (take i (map operation queue)) st)) key
                            of Some v \<Rightarrow> v | None \<Rightarrow> Null)))))"
proof -
  have c: "inv_core s" unfolding assms by (rule core_reachable)
  have 1: "count_list (map operation (batchQueue s)) (OpGet k) \<le> 1"
    unfolding assms by (rule reads_once_reachable)
  have 2: "count_list (map operation (batchQueue (snd (get_op k s)))) (OpGet k) = 1"
    by (rule one_read_per_key(2) [OF 1])
  note 3 = get_op_handle(1) [of k s]
  note 4 = get_op_handle(2) [of s k]
  have 5: "sent (flushBatch s) = sent s @ [HttpPostBatch (map operation (batchQueue s))]
           \<and> map_of (inflight (flushBatch s)) (length (sent s)) = Some (FlushPost (batchQueue s))"
    if "batchQueue s \<noteq> []"
    using that map_of_fresh_index [OF inflight_bound [OF c]]
    by (simp add: flushBatch_def prim_defs)
  have 6: "\<forall>i < length rs. \<forall>v.
                 getProp (rs ! i) ''op'' = Inr (JStr ''get'')
                 \<and> getProp (rs ! i) ''value'' = Inr v \<and> v \<noteq> Undefined \<longrightarrow>
                 (\<forall>p \<in> set (handles (queue ! i)).
                     promises (exec (Arrive x (Inr body)) s) p = Fulfilled (PVal v))"
    if h: "map_of (inflight s) x = Some (FlushPost queue)
            \<and> getProp body ''results'' = Inr (JArr rs)
            \<and> length rs \<le> length queue
            \<and> (\<forall>r \<in> set rs. r \<noteq> Undefined \<and> r \<noteq> Null)"
  proof (intro allI impI ballI)
    fix i v p
    assume i: "i < length rs"
      and g: "getProp (rs ! i) ''op'' = Inr (JStr ''get'')
                 \<and> getProp (rs ! i) ''value'' = Inr v \<and> v \<noteq> Undefined"
      and p: "p \<in> set (handles (queue ! i))"
    from h have a: "map_of (inflight s) x = Some (FlushPost queue)"
      "getProp body ''results'' = Inr (JArr rs)" "length rs \<le> length queue"
      "\<forall>r \<in> set rs. r \<noteq> Undefined \<and> r \<noteq> Null" by simp_all
    from g have g': "getProp (rs ! i) ''op'' = Inr (JStr ''get'')"
      "getProp (rs ! i) ''value'' = Inr v" "v \<noteq> Undefined" by simp_all
    from read_result_delivered [OF c a i g'(1,2) p] g'(3)
    show "promises (exec (Arrive x (Inr body)) s) p = Fulfilled (PVal v)" by simp
  qed
  have 7: "\<forall>i < length queue. \<forall>key. operation (queue ! i) = OpGet key \<longrightarrow>
                 (\<forall>p \<in> set (handles (queue ! i)).
                     promises (exec (Arrive x (Inr answer)) s) p
                       = Fulfilled (PVal
                           (case map_of (snd (store_results (take i (map operation queue)) st)) key
                            of Some v \<Rightarrow> v | None \<Rightarrow> Null)))"
    if h: "map_of (inflight s) x = Some (FlushPost queue)
            \<and> store_batch (map operation queue) st = (Some answer, st')
            \<and> Undefined \<notin> snd ` set st"
  proof (intro allI impI ballI)
    fix i key p
    assume i: "i < length queue" and o: "operation (queue ! i) = OpGet key"
      and p: "p \<in> set (handles (queue ! i))"
    let ?ops = "map operation queue"
    let ?w = "case map_of (snd (store_results (take i ?ops) st)) key of
                Some v \<Rightarrow> v | None \<Rightarrow> Null"
    from h have a: "map_of (inflight s) x = Some (FlushPost queue)"
      and b: "store_batch ?ops st = (Some answer, st')"
      and u: "Undefined \<notin> snd ` set st" by simp_all
    from b obtain rs where rs: "store_results ?ops st = (Some rs, st')"
      and ans: "answer = JObj [(''results'', JArr rs)]"
      by (cases "store_results ?ops st"; cases "fst (store_results ?ops st)")
         (auto simp: store_batch_def)
    note sr = store_results_read [OF rs]
    from sr(1) i have il: "i < length rs" and le: "length rs \<le> length queue" by simp_all
    from i o have oi: "?ops ! i = OpGet key" by simp
    from sr(3) [of i key] i oi have ri:
      "rs ! i = JObj [(''op'', JStr ''get''), (''key'', JStr key), (''value'', ?w)]" by simp
    have "Undefined \<notin> snd ` set (snd (store_results (take i ?ops) st))"
      by (rule store_results_defined [OF _ u]) (rule surjective_pairing)
    then have w: "?w \<noteq> Undefined"
      by (auto split: option.splits dest!: map_of_SomeD) force
    have g: "getProp answer ''results'' = Inr (JArr rs)" by (simp add: ans)
    have "getProp (rs ! i) ''op'' = Inr (JStr ''get'')" "getProp (rs ! i) ''value'' = Inr ?w"
      by (simp_all add: ri)
    from read_result_delivered [OF c a g le sr(2) il this p] w
    show "promises (exec (Arrive x (Inr answer)) s) p = Fulfilled (PVal ?w)" by simp
  qed
  show ?thesis
    apply (intro conjI)
    subgoal by (rule 1)
    subgoal by (rule 2)
    subgoal by (rule 3)
    subgoal by (rule 4)
    subgoal using 5 by blast
    subgoal using 6 by blast
    subgoal using 7 by blast
    done
qed

theorem collapsed_reads_share_one_result_witness:
  "count_list (map operation (batchQueue (snd (get_op ''k'' (run [CallGet ''k'', CallGet ''k'']
                                                              init))))) (OpGet ''k'') = 1
   \<and> sent (flushBatch (run [CallGet ''k'', CallGet ''k'', CallGet ''k''] init))
       = [HttpPostBatch [OpGet ''k'']]
   \<and> promises (exec (Arrive 0 (Inr (batch_response [get_result ''k'' (JNum 7)])))
                 (run [CallGet ''k'', CallGet ''k'', CallGet ''k'', Microtask] init)) 0
       = Fulfilled (PVal (JNum 7))
   \<and> promises (exec (Arrive 0 (Inr (batch_response [get_result ''k'' (JNum 7)])))
                 (run [CallGet ''k'', CallGet ''k'', CallGet ''k'', Microtask] init)) 2
       = Fulfilled (PVal (JNum 7))
   \<and> promises (exec (Arrive 0 (Inr (batch_response [get_result ''k'' Null])))
                 (run [CallGet ''k'', CallGet ''k'', CallGet ''k'', Microtask] init)) 0
       = Fulfilled (PVal Null)
   \<and> promises (exec (Arrive 0 (Inr (batch_response [get_result ''k'' Null])))
                 (run [CallGet ''k'', CallGet ''k'', CallGet ''k'', Microtask] init)) 1
       = Fulfilled (PVal Null)
   \<and> promises (exec (Arrive 0 (Inr (batch_response [get_result ''k'' Null])))
                 (run [CallGet ''k'', CallGet ''k'', CallGet ''k'', Microtask] init)) 2
       = Fulfilled (PVal Null)"
proof -
  let ?es = "[CallGet ''k'', CallGet ''k'', CallGet ''k'', Microtask]"
  let ?queue = "[\<lparr>operation = OpGet ''k'',
                   resolve = ResolveBoth (ResolveBoth (ResolveNullConv 0) 1) 2,
                   reject = RejectBoth (RejectBoth (Reject 0) 1) 2\<rparr>]"
  note t = collapsed_reads_share_one_result
  note c2 = t [where es = "[CallGet ''k'', CallGet ''k'']" and k = "''k''", OF refl,
      THEN conjunct2, THEN conjunct1]
  note c5 = t [where es = "[CallGet ''k'', CallGet ''k'', CallGet ''k'']", OF refl,
      THEN conjunct2, THEN conjunct2, THEN conjunct2, THEN conjunct2, THEN conjunct1]
  note c6 = t [where es = ?es and x = 0 and queue = ?queue
      and body = "batch_response [get_result ''k'' (JNum 7)]"
      and rs = "[get_result ''k'' (JNum 7)]", OF refl,
      THEN conjunct2, THEN conjunct2, THEN conjunct2, THEN conjunct2, THEN conjunct2,
      THEN conjunct1]
  note c7 = t [where es = ?es and x = 0 and queue = ?queue
      and st = "[(''other'', JNum 1)]" and st' = "[(''other'', JNum 1)]"
      and answer = "batch_response [get_result ''k'' Null]", OF refl,
      THEN conjunct2, THEN conjunct2, THEN conjunct2, THEN conjunct2, THEN conjunct2,
      THEN conjunct2]
  have h5: "batchQueue (run [CallGet ''k'', CallGet ''k'', CallGet ''k''] init) \<noteq> []"
    "sent (run [CallGet ''k'', CallGet ''k'', CallGet ''k''] init) = []"
    "map operation (batchQueue (run [CallGet ''k'', CallGet ''k'', CallGet ''k''] init))
       = [OpGet ''k'']"
    by (simp_all add: eval_defs)
  have q: "map_of (inflight (run ?es init)) 0 = Some (FlushPost ?queue)"
    by (simp add: eval_defs)
  have h6: "map_of (inflight (run ?es init)) 0 = Some (FlushPost ?queue)
            \<and> getProp (batch_response [get_result ''k'' (JNum 7)]) ''results''
                = Inr (JArr [get_result ''k'' (JNum 7)])
            \<and> length [get_result ''k'' (JNum 7)] \<le> length ?queue
            \<and> (\<forall>r \<in> set [get_result ''k'' (JNum 7)]. r \<noteq> Undefined \<and> r \<noteq> Null)"
    using q by (simp add: batch_response_def get_result_def)
  have g6: "getProp ([get_result ''k'' (JNum 7)] ! 0) ''op'' = Inr (JStr ''get'')
            \<and> getProp ([get_result ''k'' (JNum 7)] ! 0) ''value'' = Inr (JNum 7)
            \<and> JNum 7 \<noteq> Undefined"
    by (simp add: get_result_def)
  have h7: "map_of (inflight (run ?es init)) 0 = Some (FlushPost ?queue)
            \<and> store_batch (map operation ?queue) [(''other'', JNum 1)]
                = (Some (batch_response [get_result ''k'' Null]), [(''other'', JNum 1)])
            \<and> Undefined \<notin> snd ` set [(''other'', JNum 1)]"
    using q by (simp add: store_batch_def batch_response_def get_result_def)
  have w: "(case map_of (snd (store_results (take 0 (map operation ?queue))
                                  [(''other'', JNum 1)])) ''k''
            of Some v \<Rightarrow> v | None \<Rightarrow> Null) = Null"
    by simp
  from c5 h5 have 1: "sent (flushBatch (run [CallGet ''k'', CallGet ''k'', CallGet ''k''] init))
       = [HttpPostBatch [OpGet ''k'']]" by simp
  note d6 = c6 [THEN mp, OF h6, rule_format, of 0 "JNum 7", OF _ g6]
  have 2: "promises (exec (Arrive 0 (Inr (batch_response [get_result ''k'' (JNum 7)])))
                 (run ?es init)) 0 = Fulfilled (PVal (JNum 7))"
    "promises (exec (Arrive 0 (Inr (batch_response [get_result ''k'' (JNum 7)])))
                 (run ?es init)) 2 = Fulfilled (PVal (JNum 7))"
    using d6 [of 0] d6 [of 2] by (simp_all add: handles_def)
  note d7 = c7 [THEN mp, OF h7, rule_format, of 0 "''k''", unfolded w]
  have 3: "promises (exec (Arrive 0 (Inr (batch_response [get_result ''k'' Null])))
                 (run ?es init)) 0 = Fulfilled (PVal Null)"
    "promises (exec (Arrive 0 (Inr (batch_response [get_result ''k'' Null])))
                 (run ?es init)) 1 = Fulfilled (PVal Null)"
    "promises (exec (Arrive 0 (Inr (batch_response [get_result ''k'' Null])))
                 (run ?es init)) 2 = Fulfilled (PVal Null)"
    using d7 [of 0] d7 [of 1] d7 [of 2] by (simp_all add: handles_def)
  from c2 1 2 3 show ?thesis by blast
qed

end
